theory Spec2Isabelle
  imports Main
begin

section \<open>Data model (src/types/events.ts)\<close>

text \<open>
  The event core of the portal: the publish/subscribe bus (src/lib/events/event-bus.ts),
  the retry queue (src/lib/events/queue.ts) and the webhook handler
  (src/unnamed/part_001).

  Conventions of the embedding.
  \<^item> ISO-8601 timestamps are modelled as the natural numbers of milliseconds they denote.
    \<^verbatim>\<open>new Date(t).toISOString()\<close> throws a \<^verbatim>\<open>RangeError\<close> for \<open>t\<close> beyond the range of \<^verbatim>\<open>Date\<close>
    (\<open>toISOString\<close>), and the source compares the strings lexicographically
    (\<open>isoLessEq\<close>).
  \<^item> Counters and retry budgets (\<^verbatim>\<open>retryCount\<close>, \<^verbatim>\<open>maxRetries\<close>, \<^verbatim>\<open>maxConcurrent\<close>) are
    natural numbers, priorities and slice limits are integers.
  \<^item> \<^verbatim>\<open>Date.now()\<close>, \<^verbatim>\<open>generateId()\<close> and the outcome of the external delivery are inputs
    of the operation that reads them.
  \<^item> A JavaScript \<^verbatim>\<open>Map\<close> is an association list in insertion order; \<^verbatim>\<open>set\<close> on a present
    key replaces the value in place, on a new key appends.
\<close>

datatype eventType =
    H2rRequisitionCreated | H2rRequisitionApproved | H2rRequisitionCompleted
  | H2rEmployeeOnboarded
  | LmsCourseEnrolled | LmsCourseStarted | LmsCourseCompleted | LmsCourseDropped
  | WfmShiftScheduled | WfmShiftCompleted | WfmAttendanceRecorded
  | TicketCreated | TicketAssigned | TicketUpdated | TicketResolved | TicketClosed
  | PerformanceAssessmentCreated | PerformanceKpiUpdated
  | PerformanceSkillGapIdentified | PerformanceReviewScheduled

record event =
  ev_id :: string
  ev_type :: eventType
  timestamp :: nat
  source :: string
  correlationId :: "string option"
  metadata :: "(string \<times> string) list option"
  payload :: "(string \<times> string) list"

text \<open>A thrown value: an \<^verbatim>\<open>Error\<close> with its message, or anything else.\<close>

datatype exn = Error string | Thrown

subsection \<open>Dates\<close>

text \<open>The largest time value of a \<^verbatim>\<open>Date\<close>, and the first millisecond of the year 10000.\<close>

definition maxDate :: nat where
  "maxDate = 8640000000000000"

definition year10000 :: nat where
  "year10000 = 253402300800000"

text \<open>\<^verbatim>\<open>new Date(t).toISOString()\<close>: a time value beyond \<open>maxDate\<close> makes an invalid date, on
  which \<^verbatim>\<open>toISOString\<close> throws \<^verbatim>\<open>RangeError: Invalid time value\<close>.\<close>

definition toISOString :: "nat \<Rightarrow> exn + nat" where
  "toISOString t = (if t \<le> maxDate then Inr t else Inl (Error ''Invalid time value''))"

text \<open>\<^verbatim>\<open>s <= t\<close> on two ISO strings. Up to the year 9999 a string starts with the four digits
  of the year, and the lexicographic order is the order of the instants; from the year
  10000 on it starts with \<^verbatim>\<open>+\<close> and six digits, and \<^verbatim>\<open>+\<close> sorts before every digit.\<close>

definition isoLessEq :: "nat \<Rightarrow> nat \<Rightarrow> bool" where
  "isoLessEq s t =
     (if (s < year10000) = (t < year10000) then s \<le> t else year10000 \<le> s)"

subsection \<open>Array and Map helpers\<close>

text \<open>\<^verbatim>\<open>Array.prototype.slice(start)\<close> with one argument: a negative start counts from the
  end and is clamped at 0, a positive one is clamped at the length.\<close>

definition slice_from :: "int \<Rightarrow> 'a list \<Rightarrow> 'a list" where
  "slice_from start xs =
     (let len = int (length xs);
          k = (if start < 0 then max (len + start) 0 else min start len)
      in drop (nat k) xs)"

text \<open>\<^verbatim>\<open>push\<close> followed by \<^verbatim>\<open>if (length > max) shift()\<close>, the bounded append of both
  histories.\<close>

definition push_bounded :: "nat \<Rightarrow> 'a \<Rightarrow> 'a list \<Rightarrow> 'a list" where
  "push_bounded maxSize x xs =
     (let ys = xs @ [x] in if length ys > maxSize then tl ys else ys)"

text \<open>\<^verbatim>\<open>Map.prototype.set\<close>, \<^verbatim>\<open>get\<close>, \<^verbatim>\<open>delete\<close> and \<^verbatim>\<open>values\<close>.\<close>

fun map_set :: "'k \<Rightarrow> 'v \<Rightarrow> ('k \<times> 'v) list \<Rightarrow> ('k \<times> 'v) list" where
  "map_set k v [] = [(k, v)]"
| "map_set k v ((k', v') # rest) =
     (if k' = k then (k, v) # rest else (k', v') # map_set k v rest)"

fun map_get :: "'k \<Rightarrow> ('k \<times> 'v) list \<Rightarrow> 'v option" where
  "map_get k [] = None"
| "map_get k ((k', v') # rest) = (if k' = k then Some v' else map_get k rest)"

definition map_delete :: "'k \<Rightarrow> ('k \<times> 'v) list \<Rightarrow> ('k \<times> 'v) list" where
  "map_delete k m = filter (\<lambda>kv. fst kv \<noteq> k) m"

definition map_values :: "('k \<times> 'v) list \<Rightarrow> 'v list" where
  "map_values m = map snd m"

section \<open>History queries\<close>

subsection \<open>EventBus.getHistory (event-bus.ts, lines 65-77)\<close>

record historyFilter =
  hf_eventType :: "eventType option"
  hf_limit :: "int option"

text \<open>\<^verbatim>\<open>if (filter?.eventType)\<close> holds for every given type (the type names are non-empty
  strings); \<^verbatim>\<open>if (filter?.limit)\<close> is false for an absent limit and for 0.\<close>

definition getHistory :: "historyFilter option \<Rightarrow> event list \<Rightarrow> event list" where
  "getHistory flt eventHistory =
     (let events = eventHistory;
          events = (case flt of
                      Some f \<Rightarrow> (case hf_eventType f of
                                   Some t \<Rightarrow> filter (\<lambda>e. ev_type e = t) events
                                 | None \<Rightarrow> events)
                    | None \<Rightarrow> events);
          events = (case flt of
                      Some f \<Rightarrow> (case hf_limit f of
                                   Some l \<Rightarrow> if l \<noteq> 0 then slice_from (- l) events else events
                                 | None \<Rightarrow> events)
                    | None \<Rightarrow> events)
      in events)"

subsection \<open>WebhookHandler.getDeliveryHistory (part_001, lines 105-117)\<close>

record webhookDeliveryResult =
  res_webhookId :: string
  res_success :: bool
  res_statusCode :: "nat option"
  res_error :: "string option"
  res_retryCount :: nat
  res_deliveredAt :: nat

record deliveryFilter =
  df_webhookId :: "string option"
  df_limit :: "int option"

text \<open>\<^verbatim>\<open>if (filter?.webhookId)\<close> is false for an absent id and for the empty string.\<close>

definition getDeliveryHistory ::
  "deliveryFilter option \<Rightarrow> webhookDeliveryResult list \<Rightarrow> webhookDeliveryResult list" where
  "getDeliveryHistory flt deliveryHistory =
     (let history = deliveryHistory;
          history = (case flt of
                       Some f \<Rightarrow> (case df_webhookId f of
                                    Some w \<Rightarrow> if w \<noteq> [] then filter (\<lambda>h. res_webhookId h = w) history
                                              else history
                                  | None \<Rightarrow> history)
                     | None \<Rightarrow> history);
          history = (case flt of
                       Some f \<Rightarrow> (case df_limit f of
                                    Some l \<Rightarrow> if l \<noteq> 0 then slice_from (- l) history else history
                                  | None \<Rightarrow> history)
                     | None \<Rightarrow> history)
      in history)"

section \<open>EventBus (src/lib/events/event-bus.ts)\<close>

text \<open>
  A handler is a closure \<^verbatim>\<open>(event) => Promise<void>\<close>. Two kinds of closure reach the bus:
  a caller's handler, which acts on the caller's own state (a value of type \<open>'w\<close>), and the
  wrapper that \<^verbatim>\<open>once\<close> builds around such a handler, which captures the subscription id.

  A call of a caller's handler runs until the handler has ended or waits for something
  outside the bus. By then it has thrown or returned a settled promise (\<open>Settles\<close>, with
  how), or it has returned a promise that is still pending (\<open>Awaits p\<close>, \<open>p\<close> names the
  promise); the environment settles that promise later (\<open>settleHandler\<close>). Handlers and
  filters of callers do not call back into the bus. A filter returns a boolean or throws.
  The state of a promise is read when the jobs queued so far have run. What a handler
  does to its caller's state after it has first waited is left out: the bus does not read
  that state.

  \<^verbatim>\<open>publish\<close> calls the handlers of the matching subscriptions in the order of the
  subscription map, each inside its own \<^verbatim>\<open>try\<close>, and awaits all of them.
\<close>

datatype handlerOutcome = Settles "exn + unit" | Awaits nat

type_synonym 'w handlerBody = "event \<Rightarrow> 'w \<Rightarrow> handlerOutcome \<times> 'w"

datatype 'w eventHandler =
    UserHandler "'w handlerBody"
  | OnceWrapper string "'w handlerBody"

datatype subscriptionType = Single eventType | Many "eventType list"

record 'w eventSubscription =
  sub_id :: string
  sub_eventType :: subscriptionType
  sub_handler :: "'w eventHandler"
  sub_filter :: "(event \<Rightarrow> exn + bool) option"

text \<open>The fields of the class, the lines written with \<^verbatim>\<open>console.error\<close>, the state the
  callers' handlers act on, and \<open>invoked\<close>: the ids of the subscriptions whose handler
  \<^verbatim>\<open>publish\<close> has called, in call order (an observer; the source keeps no such list).\<close>

record 'w eventBus =
  subscriptions :: "(string \<times> 'w eventSubscription) list"
  eventHistory :: "event list"
  console :: "(eventType \<times> exn) list"
  world :: 'w
  invoked :: "string list"

definition maxHistorySize :: nat where
  "maxHistorySize = 1000"

definition newEventBus :: "'w \<Rightarrow> 'w eventBus" where
  "newEventBus w =
     \<lparr>subscriptions = [], eventHistory = [], console = [], world = w, invoked = []\<rparr>"

fun matchesEventType :: "eventType \<Rightarrow> subscriptionType \<Rightarrow> bool" where
  "matchesEventType eventType (Many subscriptionTypes) = (eventType \<in> set subscriptionTypes)"
| "matchesEventType eventType (Single subscriptionType) = (eventType = subscriptionType)"

fun passesFilter :: "event \<Rightarrow> (event \<Rightarrow> exn + bool) option \<Rightarrow> exn + bool" where
  "passesFilter event None = Inr True"
| "passesFilter event (Some flt) = flt event"

text \<open>\<^verbatim>\<open>subscribe\<close>: \<open>gen\<close> is what \<^verbatim>\<open>generateId()\<close> returns when it is called, that is
  when the subscription carries no id (the empty string is falsy).\<close>

definition subscribe ::
  "string \<Rightarrow> 'w eventSubscription \<Rightarrow> 'w eventBus \<Rightarrow> string \<times> 'w eventBus" where
  "subscribe gen subscription bus =
     (let i = (if sub_id subscription \<noteq> [] then sub_id subscription else gen)
      in (i, bus\<lparr>subscriptions := map_set i (subscription\<lparr>sub_id := i\<rparr>) (subscriptions bus)\<rparr>))"

definition unsubscribe :: "string \<Rightarrow> 'w eventBus \<Rightarrow> 'w eventBus" where
  "unsubscribe subscriptionId bus =
     bus\<lparr>subscriptions := map_delete subscriptionId (subscriptions bus)\<rparr>"

definition getSubscriptions :: "'w eventBus \<Rightarrow> 'w eventSubscription list" where
  "getSubscriptions bus = map_values (subscriptions bus)"

text \<open>Calling a handler. The wrapper of \<^verbatim>\<open>once\<close> is
  \<^verbatim>\<open>async (event) => { this.unsubscribe(id); await handler(event); }\<close>: its promise settles
  as the promise of the handler does.\<close>

fun callHandler ::
  "'w eventHandler \<Rightarrow> event \<Rightarrow> 'w eventBus \<Rightarrow> handlerOutcome \<times> 'w eventBus" where
  "callHandler (UserHandler handler) event bus =
     (let (r, w) = handler event (world bus) in (r, bus\<lparr>world := w\<rparr>))"
| "callHandler (OnceWrapper i handler) event bus =
     (let bus1 = unsubscribe i bus;
          (r, w) = handler event (world bus1)
      in (r, bus1\<lparr>world := w\<rparr>))"

text \<open>The state of a promise.\<close>

datatype promiseState = PromisePending | PromiseFulfilled | PromiseRejected exn

text \<open>The task \<^verbatim>\<open>publish\<close> builds for one matching subscription,
  \<^verbatim>\<open>async (sub) => { try { await sub.handler(event) } catch (error) { console.error(...) } }\<close>:
  it waits for the promise of the handler (\<open>Awaiting\<close>) or has ended, and then \<open>Ended\<close> says
  how its own promise is settled. A handler that has thrown, or whose promise is rejected,
  takes the task through \<^verbatim>\<open>catch\<close>.\<close>

datatype task = Awaiting nat | Ended "exn + unit"

fun taskPromise :: "task \<Rightarrow> promiseState" where
  "taskPromise (Awaiting p) = PromisePending"
| "taskPromise (Ended (Inr u)) = PromiseFulfilled"
| "taskPromise (Ended (Inl err)) = PromiseRejected err"

definition handlerTask ::
  "event \<Rightarrow> 'w eventSubscription \<Rightarrow> 'w eventBus \<Rightarrow> task \<times> 'w eventBus" where
  "handlerTask event sub bus =
     (let bus1 = bus\<lparr>invoked := invoked bus @ [sub_id sub]\<rparr>;
          (r, bus2) = callHandler (sub_handler sub) event bus1
      in case r of
           Settles (Inl err) \<Rightarrow>
             (Ended (Inr ()), bus2\<lparr>console := console bus2 @ [(ev_type event, err)]\<rparr>)
         | Settles (Inr u) \<Rightarrow> (Ended (Inr ()), bus2)
         | Awaits p \<Rightarrow> (Awaiting p, bus2))"

fun executeHandlers ::
  "event \<Rightarrow> 'w eventSubscription list \<Rightarrow> 'w eventBus \<Rightarrow> task list \<times> 'w eventBus" where
  "executeHandlers event [] bus = ([], bus)"
| "executeHandlers event (sub # subs) bus =
     (let (p, bus1) = handlerTask event sub bus;
          (ps, bus2) = executeHandlers event subs bus1
      in (p # ps, bus2))"

text \<open>\<^verbatim>\<open>Promise.all\<close>: rejected as soon as one promise is, fulfilled when every promise is,
  pending otherwise.\<close>

fun promise_all :: "promiseState list \<Rightarrow> promiseState" where
  "promise_all [] = PromiseFulfilled"
| "promise_all (PromiseRejected err # ps) = PromiseRejected err"
| "promise_all (PromiseFulfilled # ps) = promise_all ps"
| "promise_all (PromisePending # ps) =
     (case promise_all ps of
        PromiseRejected err \<Rightarrow> PromiseRejected err
      | PromiseFulfilled \<Rightarrow> PromisePending
      | PromisePending \<Rightarrow> PromisePending)"

text \<open>The \<^verbatim>\<open>filter\<close> call of \<^verbatim>\<open>publish\<close> over the subscriptions, in the order of the map.
  \<^verbatim>\<open>passesFilter\<close> is evaluated only for a subscription of a matching type (\<^verbatim>\<open>&&\<close>), and a
  filter that throws ends the whole call.\<close>

fun filterSubscriptions ::
  "event \<Rightarrow> 'w eventSubscription list \<Rightarrow> exn + 'w eventSubscription list" where
  "filterSubscriptions event [] = Inr []"
| "filterSubscriptions event (sub # subs) =
     (if matchesEventType (ev_type event) (sub_eventType sub)
      then (case passesFilter event (sub_filter sub) of
              Inl err \<Rightarrow> Inl err
            | Inr keep \<Rightarrow>
                (case filterSubscriptions event subs of
                   Inl err \<Rightarrow> Inl err
                 | Inr rest \<Rightarrow> Inr (if keep then sub # rest else rest)))
      else filterSubscriptions event subs)"

definition matchingSubscriptions ::
  "event \<Rightarrow> 'w eventBus \<Rightarrow> exn + 'w eventSubscription list" where
  "matchingSubscriptions event bus =
     filterSubscriptions event (map_values (subscriptions bus))"

text \<open>A call of \<^verbatim>\<open>publish\<close>: thrown out of by a filter (its promise is rejected), or
  suspended at \<^verbatim>\<open>await Promise.all(promises)\<close> with its tasks.\<close>

datatype publication = Refused exn | Started event "task list"

fun publishPromise :: "publication \<Rightarrow> promiseState" where
  "publishPromise (Refused err) = PromiseRejected err"
| "publishPromise (Started event tasks) = promise_all (map taskPromise tasks)"

definition publish :: "event \<Rightarrow> 'w eventBus \<Rightarrow> publication \<times> 'w eventBus" where
  "publish event bus =
     (let bus1 = bus\<lparr>eventHistory := push_bounded maxHistorySize event (eventHistory bus)\<rparr>
      in case matchingSubscriptions event bus1 of
           Inl err \<Rightarrow> (Refused err, bus1)
         | Inr subs \<Rightarrow>
             (let (tasks, bus2) = executeHandlers event subs bus1
              in (Started event tasks, bus2)))"

text \<open>The environment settles the promise \<open>p\<close> of a handler with \<open>r\<close>: every task of the
  publication that awaits \<open>p\<close> continues, through \<^verbatim>\<open>catch\<close> when \<open>p\<close> is rejected, and ends.\<close>

fun settleTasks ::
  "nat \<Rightarrow> exn + unit \<Rightarrow> event \<Rightarrow> task list \<Rightarrow> 'w eventBus \<Rightarrow> task list \<times> 'w eventBus" where
  "settleTasks p r event [] bus = ([], bus)"
| "settleTasks p r event (t # ts) bus =
     (let (t1, bus1) =
            (if t = Awaiting p
             then (case r of
                     Inl err \<Rightarrow>
                       (Ended (Inr ()), bus\<lparr>console := console bus @ [(ev_type event, err)]\<rparr>)
                   | Inr u \<Rightarrow> (Ended (Inr ()), bus))
             else (t, bus));
          (ts1, bus2) = settleTasks p r event ts bus1
      in (t1 # ts1, bus2))"

fun settleHandler ::
  "nat \<Rightarrow> exn + unit \<Rightarrow> publication \<times> 'w eventBus \<Rightarrow> publication \<times> 'w eventBus" where
  "settleHandler p r (Refused err, bus) = (Refused err, bus)"
| "settleHandler p r (Started event tasks, bus) =
     (let (tasks1, bus1) = settleTasks p r event tasks bus in (Started event tasks1, bus1))"

fun settleHandlers ::
  "(nat \<times> (exn + unit)) list \<Rightarrow> publication \<times> 'w eventBus \<Rightarrow> publication \<times> 'w eventBus" where
  "settleHandlers [] s = s"
| "settleHandlers ((p, r) # ss) s = settleHandlers ss (settleHandler p r s)"

definition clearHistory :: "'w eventBus \<Rightarrow> 'w eventBus" where
  "clearHistory bus = bus\<lparr>eventHistory := []\<rparr>"

text \<open>\<^verbatim>\<open>createEvent\<close>: \<open>gen\<close> is the generated id, \<open>now\<close> the clock.\<close>

definition createEvent ::
  "string \<Rightarrow> nat \<Rightarrow> eventType \<Rightarrow> (string \<times> string) list \<Rightarrow> string \<Rightarrow> event" where
  "createEvent gen now ty pl src =
     \<lparr>ev_id = gen, ev_type = ty, timestamp = now, source = src, correlationId = None,
      metadata = None, payload = pl\<rparr>"

definition on_event ::
  "string \<Rightarrow> subscriptionType \<Rightarrow> 'w handlerBody \<Rightarrow> 'w eventBus \<Rightarrow> string \<times> 'w eventBus" where
  "on_event gen eventType handler bus =
     subscribe gen \<lparr>sub_id = gen, sub_eventType = eventType,
                    sub_handler = UserHandler handler, sub_filter = None\<rparr> bus"

definition once ::
  "string \<Rightarrow> eventType \<Rightarrow> 'w handlerBody \<Rightarrow> 'w eventBus \<Rightarrow> string \<times> 'w eventBus" where
  "once gen eventType handler bus =
     (let i = gen;
          wrappedHandler = OnceWrapper i handler
      in subscribe gen \<lparr>sub_id = i, sub_eventType = Single eventType,
                         sub_handler = wrappedHandler, sub_filter = None\<rparr> bus)"

definition emit ::
  "string \<Rightarrow> nat \<Rightarrow> eventType \<Rightarrow> (string \<times> string) list \<Rightarrow> string \<Rightarrow> 'w eventBus
    \<Rightarrow> publication \<times> 'w eventBus" where
  "emit gen now ty pl src bus = publish (createEvent gen now ty pl src) bus"

text \<open>The caller's handler inside a handler, and the subscription id a \<^verbatim>\<open>once\<close> wrapper
  captured.\<close>

fun userBody :: "'w eventHandler \<Rightarrow> 'w handlerBody" where
  "userBody (UserHandler handler) = handler"
| "userBody (OnceWrapper i handler) = handler"

fun onceId :: "'w eventHandler \<Rightarrow> string option" where
  "onceId (UserHandler handler) = None"
| "onceId (OnceWrapper i handler) = Some i"

definition onceIds :: "'w eventSubscription list \<Rightarrow> string set" where
  "onceIds subs = {i. \<exists>sub \<in> set subs. onceId (sub_handler sub) = Some i}"

text \<open>What the handlers of \<open>subs\<close> answer when they are called one after the other, the first
  on the state \<open>w\<close>; the task each answer leaves; the promises a list of tasks awaits.\<close>

fun outcomes :: "event \<Rightarrow> 'w eventSubscription list \<Rightarrow> 'w \<Rightarrow> handlerOutcome list" where
  "outcomes event [] w = []"
| "outcomes event (sub # subs) w =
     (let (r, w1) = userBody (sub_handler sub) event w in r # outcomes event subs w1)"

fun taskOf :: "handlerOutcome \<Rightarrow> task" where
  "taskOf (Settles r) = Ended (Inr ())"
| "taskOf (Awaits p) = Awaiting p"

definition awaited :: "task list \<Rightarrow> nat set" where
  "awaited tasks = {p. Awaiting p \<in> set tasks}"

text \<open>The subscription map of a bus built with \<^verbatim>\<open>on\<close>, \<^verbatim>\<open>once\<close>, \<^verbatim>\<open>subscribe\<close> (of a caller's
  handler) and \<^verbatim>\<open>unsubscribe\<close>: keys are distinct (it is a \<^verbatim>\<open>Map\<close>), every subscription is
  stored under its own id, and a \<^verbatim>\<open>once\<close> wrapper under the id it captured.\<close>

definition entry_ok :: "string \<times> 'w eventSubscription \<Rightarrow> bool" where
  "entry_ok kv = (sub_id (snd kv) = fst kv
                  \<and> onceId (sub_handler (snd kv)) \<in> {None, Some (fst kv)})"

definition bus_ok :: "'w eventBus \<Rightarrow> bool" where
  "bus_ok bus =
     (distinct (map fst (subscriptions bus)) \<and> list_all entry_ok (subscriptions bus))"

section \<open>WebhookHandler (src/unnamed/part_001)\<close>

record webhookConfig =
  wh_id :: string
  url :: string
  events :: "eventType list"
  secret :: "string option"
  active :: bool
  wh_retryCount :: nat
  timeout :: nat
  createdAt :: nat
  updatedAt :: nat

text \<open>\<^verbatim>\<open>Partial<WebhookConfig>\<close>, the argument of \<^verbatim>\<open>updateWebhook\<close>.\<close>

record webhookUpdates =
  up_id :: "string option"
  up_url :: "string option"
  up_events :: "eventType list option"
  up_secret :: "string option option"
  up_active :: "bool option"
  up_retryCount :: "nat option"
  up_timeout :: "nat option"
  up_createdAt :: "nat option"

text \<open>
  The fields of the class and its environment: the clock, the delivery transport and
  the calls made to it. The transport (\<^verbatim>\<open>simulateDelivery\<close> in the source, an outbound
  request in production) answers its \<open>k\<close>-th call after \<open>fst (transport k)\<close> milliseconds
  with \<open>snd (transport k)\<close>: delivered or not, or a thrown error. \<open>transportCalls\<close> lists
  the calls as (webhook id, event id).

  Deliveries to several webhooks run one after the other in the model; in the source
  their waits overlap.
\<close>

record webhookHandler =
  webhooks :: "(string \<times> webhookConfig) list"
  deliveryHistory :: "webhookDeliveryResult list"
  clock :: nat
  transport :: "nat \<Rightarrow> nat \<times> (exn + bool)"
  transportCalls :: "(string \<times> string) list"

definition maxDeliveryHistorySize :: nat where
  "maxDeliveryHistorySize = 500"

definition newWebhookHandler :: "nat \<Rightarrow> (nat \<Rightarrow> nat \<times> (exn + bool)) \<Rightarrow> webhookHandler" where
  "newWebhookHandler t tr =
     \<lparr>webhooks = [], deliveryHistory = [], clock = t, transport = tr, transportCalls = []\<rparr>"

definition registerWebhook :: "webhookConfig \<Rightarrow> webhookHandler \<Rightarrow> webhookHandler" where
  "registerWebhook config st = st\<lparr>webhooks := map_set (wh_id config) config (webhooks st)\<rparr>"

definition unregisterWebhook :: "string \<Rightarrow> webhookHandler \<Rightarrow> webhookHandler" where
  "unregisterWebhook webhookId st = st\<lparr>webhooks := map_delete webhookId (webhooks st)\<rparr>"

definition getWebhooks :: "webhookHandler \<Rightarrow> webhookConfig list" where
  "getWebhooks st = map_values (webhooks st)"

definition getWebhook :: "string \<Rightarrow> webhookHandler \<Rightarrow> webhookConfig option" where
  "getWebhook webhookId st = map_get webhookId (webhooks st)"

definition pick :: "'a option \<Rightarrow> 'a \<Rightarrow> 'a" where
  "pick u x = (case u of Some y \<Rightarrow> y | None \<Rightarrow> x)"

definition updateWebhook :: "string \<Rightarrow> webhookUpdates \<Rightarrow> webhookHandler \<Rightarrow> webhookHandler" where
  "updateWebhook webhookId updates st =
     (case map_get webhookId (webhooks st) of
        Some existing \<Rightarrow>
          st\<lparr>webhooks := map_set webhookId
                \<lparr>wh_id = pick (up_id updates) (wh_id existing),
                 url = pick (up_url updates) (url existing),
                 events = pick (up_events updates) (events existing),
                 secret = pick (up_secret updates) (secret existing),
                 active = pick (up_active updates) (active existing),
                 wh_retryCount = pick (up_retryCount updates) (wh_retryCount existing),
                 timeout = pick (up_timeout updates) (timeout existing),
                 createdAt = pick (up_createdAt updates) (createdAt existing),
                 updatedAt = clock st\<rparr>
                (webhooks st)\<rparr>
      | None \<Rightarrow> st)"

definition setWebhookActive :: "string \<Rightarrow> bool \<Rightarrow> webhookHandler \<Rightarrow> webhookHandler" where
  "setWebhookActive webhookId a st =
     updateWebhook webhookId
       \<lparr>up_id = None, up_url = None, up_events = None, up_secret = None, up_active = Some a,
        up_retryCount = None, up_timeout = None, up_createdAt = None\<rparr> st"

definition delay :: "nat \<Rightarrow> webhookHandler \<Rightarrow> webhookHandler" where
  "delay ms st = st\<lparr>clock := clock st + ms\<rparr>"

definition simulateDelivery ::
  "webhookConfig \<Rightarrow> event \<Rightarrow> webhookHandler \<Rightarrow> (exn + bool) \<times> webhookHandler" where
  "simulateDelivery webhook event st =
     (let (latency, outcome) = transport st (length (transportCalls st));
          st1 = st\<lparr>transportCalls := transportCalls st @ [(wh_id webhook, ev_id event)]\<rparr>
      in (outcome, delay latency st1))"

definition recordDelivery :: "webhookDeliveryResult \<Rightarrow> webhookHandler \<Rightarrow> webhookHandler" where
  "recordDelivery result st =
     st\<lparr>deliveryHistory := push_bounded maxDeliveryHistorySize result (deliveryHistory st)\<rparr>"

fun errorMessage :: "exn \<Rightarrow> string" where
  "errorMessage (Error message) = message"
| "errorMessage Thrown = ''Unknown error''"

function attemptDelivery ::
  "webhookConfig \<Rightarrow> event \<Rightarrow> nat \<Rightarrow> webhookHandler \<Rightarrow> webhookDeliveryResult \<times> webhookHandler" where
  "attemptDelivery webhook event retryCount st =
     (let (outcome, st1) = simulateDelivery webhook event st in
      case outcome of
        Inr success \<Rightarrow>
          (let result = \<lparr>res_webhookId = wh_id webhook, res_success = success,
                         res_statusCode = Some (if success then 200 else 500),
                         res_error = None, res_retryCount = retryCount,
                         res_deliveredAt = clock st1\<rparr>;
               st2 = recordDelivery result st1
           in if \<not> success \<and> retryCount < wh_retryCount webhook
              then attemptDelivery webhook event (retryCount + 1)
                     (delay (2 ^ retryCount * 1000) st2)
              else (result, st2))
      | Inl err \<Rightarrow>
          (let result = \<lparr>res_webhookId = wh_id webhook, res_success = False,
                         res_statusCode = None, res_error = Some (errorMessage err),
                         res_retryCount = retryCount, res_deliveredAt = clock st1\<rparr>;
               st2 = recordDelivery result st1
           in if retryCount < wh_retryCount webhook
              then attemptDelivery webhook event (retryCount + 1)
                     (delay (2 ^ retryCount * 1000) st2)
              else (result, st2)))"
  by pat_completeness auto
termination
  by (relation "measure (\<lambda>(webhook, event, retryCount, st). wh_retryCount webhook - retryCount)")
     auto

definition deliverToWebhook ::
  "string \<Rightarrow> event \<Rightarrow> webhookHandler \<Rightarrow> webhookDeliveryResult \<times> webhookHandler" where
  "deliverToWebhook webhookId event st =
     (case map_get webhookId (webhooks st) of
        None \<Rightarrow>
          (\<lparr>res_webhookId = webhookId, res_success = False, res_statusCode = None,
            res_error = Some ''Webhook not found'', res_retryCount = 0,
            res_deliveredAt = clock st\<rparr>, st)
      | Some webhook \<Rightarrow>
          if \<not> active webhook
          then (\<lparr>res_webhookId = webhookId, res_success = False, res_statusCode = None,
                 res_error = Some ''Webhook is inactive'', res_retryCount = 0,
                 res_deliveredAt = clock st\<rparr>, st)
          else attemptDelivery webhook event 0 st)"

definition matchingWebhooks :: "event \<Rightarrow> webhookHandler \<Rightarrow> webhookConfig list" where
  "matchingWebhooks event st =
     filter (\<lambda>webhook. active webhook \<and> ev_type event \<in> set (events webhook))
       (map_values (webhooks st))"

fun deliverAll :: "webhookConfig list \<Rightarrow> event \<Rightarrow> webhookHandler \<Rightarrow> webhookHandler" where
  "deliverAll [] event st = st"
| "deliverAll (webhook # rest) event st =
     deliverAll rest event (snd (attemptDelivery webhook event 0 st))"

definition deliverToMatchingWebhooks :: "event \<Rightarrow> webhookHandler \<Rightarrow> webhookHandler" where
  "deliverToMatchingWebhooks event st = deliverAll (matchingWebhooks event st) event st"

text \<open>\<^verbatim>\<open>setupEventSubscription\<close>: the handler the constructor registers on the bus, and the
  event types it registers it for. The bus then runs over the state of the webhook
  handler; the deliveries are made within the call of the handler.\<close>

definition webhookEventTypes :: "eventType list" where
  "webhookEventTypes =
     [TicketCreated, TicketClosed, LmsCourseCompleted, H2rRequisitionCreated,
      H2rRequisitionCompleted, PerformanceAssessmentCreated, PerformanceSkillGapIdentified]"

definition setupEventSubscription ::
  "string \<Rightarrow> webhookHandler eventBus \<Rightarrow> string \<times> webhookHandler eventBus" where
  "setupEventSubscription gen bus =
     on_event gen (Many webhookEventTypes)
       (\<lambda>event st. (Settles (Inr ()), deliverToMatchingWebhooks event st)) bus"

text \<open>The result \<^verbatim>\<open>attemptDelivery\<close> builds at attempt \<open>n\<close> from the outcome of the transport
  (the record of its \<^verbatim>\<open>try\<close> branch for a returned value, of its \<^verbatim>\<open>catch\<close> branch for a thrown one).\<close>

definition attemptResult :: "webhookConfig \<Rightarrow> nat \<Rightarrow> webhookHandler \<Rightarrow> (exn + bool) \<Rightarrow> webhookDeliveryResult" where
  "attemptResult wh n st1 out = (case out of 
      Inr success \<Rightarrow> \<lparr>res_webhookId = wh_id wh, res_success = success,
                         res_statusCode = Some (if success then 200 else 500),
                         res_error = None, res_retryCount = n,
                         res_deliveredAt = clock st1\<rparr>
    | Inl err \<Rightarrow> \<lparr>res_webhookId = wh_id wh, res_success = False,
                         res_statusCode = None, res_error = Some (errorMessage err),
                         res_retryCount = n, res_deliveredAt = clock st1\<rparr>)"

section \<open>EventQueue (src/lib/events/queue.ts)\<close>

text \<open>
  Message objects are shared: the array \<^verbatim>\<open>queue\<close>, the array \<^verbatim>\<open>deadLetter\<close> and every running
  \<^verbatim>\<open>processMessage\<close> hold references to the same object and mutate it. The model keeps the
  objects in a store (\<open>heap\<close>, an address is an index into it, allocated by \<^verbatim>\<open>enqueue\<close> and
  never freed) and the two arrays as lists of addresses.

  The two async functions are cut at their \<^verbatim>\<open>await\<close>s. \<^verbatim>\<open>processMessage\<close> runs up to the race
  between \<^verbatim>\<open>publish\<close> and the timeout (\<open>processMessage_begin\<close>) and, once the race has
  settled, from there to its end (\<open>processMessage_settle\<close>); the outcome of the race is an
  input. \<^verbatim>\<open>startProcessing\<close> runs from the head of its \<^verbatim>\<open>while\<close> loop to the next \<^verbatim>\<open>await\<close>
  (\<open>loopIteration\<close>). The suspended calls are part of the state: \<open>inFlight\<close> holds the
  messages of the \<^verbatim>\<open>processMessage\<close> calls waiting for their race, \<open>loops\<close> one frame for
  each call of \<^verbatim>\<open>startProcessing\<close>. What the handlers do during \<^verbatim>\<open>publish\<close> is outside the
  queue and not modelled here.
\<close>

datatype messageStatus = Pending | Processing | Completed | Failed | DeadLetter

record queueMessage =
  msg_id :: string
  msg_event :: event
  priority :: int
  retryCount :: nat
  maxRetries :: nat
  scheduledAt :: "nat option"
  processedAt :: "nat option"
  status :: messageStatus

record queueOptions =
  maxConcurrent :: nat
  retryDelay :: nat
  opt_maxRetries :: nat
  processingTimeout :: nat

text \<open>\<^verbatim>\<open>Partial<QueueOptions>\<close>, the argument of the constructor.\<close>

record partialQueueOptions =
  po_maxConcurrent :: "nat option"
  po_retryDelay :: "nat option"
  po_maxRetries :: "nat option"
  po_processingTimeout :: "nat option"

record queueStats =
  st_pending :: nat
  st_processing :: nat
  st_completed :: nat
  st_failed :: nat
  st_deadLetter :: nat

text \<open>A call of \<^verbatim>\<open>startProcessing\<close>: suspended at \<^verbatim>\<open>await this.delay(100)\<close>, suspended at
  \<^verbatim>\<open>await Promise.all(processingPromises)\<close> with the messages whose \<^verbatim>\<open>processMessage\<close> has not
  returned yet, returned, or ended by the rejection of a \<^verbatim>\<open>processMessage\<close> of its batch
  (the call then never reaches its last line \<^verbatim>\<open>this.isProcessing = false\<close>).\<close>

datatype loopFrame = AwaitDelay | AwaitBatch "nat list" | Returned | Rejected

record eventQueue =
  heap :: "queueMessage list"
  queue :: "nat list"
  processing :: "string list"
  deadLetter :: "nat list"
  completedCount :: nat
  failedCount :: nat
  isProcessing :: bool
  options :: queueOptions
  inFlight :: "nat list"
  loops :: "loopFrame list"

text \<open>\<^verbatim>\<open>x || d\<close> on an optional number: the default replaces \<^verbatim>\<open>undefined\<close> and 0.\<close>

definition orDefault :: "nat option \<Rightarrow> nat \<Rightarrow> nat" where
  "orDefault x d = (case x of Some n \<Rightarrow> if n \<noteq> 0 then n else d | None \<Rightarrow> d)"

definition newEventQueue :: "partialQueueOptions option \<Rightarrow> eventQueue" where
  "newEventQueue opts =
     \<lparr>heap = [], queue = [], processing = [], deadLetter = [], completedCount = 0,
      failedCount = 0, isProcessing = False,
      options =
        \<lparr>maxConcurrent = orDefault (Option.bind opts po_maxConcurrent) 5,
         retryDelay = orDefault (Option.bind opts po_retryDelay) 1000,
         opt_maxRetries = orDefault (Option.bind opts po_maxRetries) 3,
         processingTimeout = orDefault (Option.bind opts po_processingTimeout) 30000\<rparr>,
      inFlight = [], loops = []\<rparr>"

text \<open>\<^verbatim>\<open>Array.prototype.findIndex\<close> (\<open>None\<close> for -1) and the two uses of \<^verbatim>\<open>splice\<close>.\<close>

fun findIndex :: "('a \<Rightarrow> bool) \<Rightarrow> 'a list \<Rightarrow> nat option" where
  "findIndex P [] = None"
| "findIndex P (x # xs) = (if P x then Some 0 else map_option Suc (findIndex P xs))"

definition splice_insert :: "nat \<Rightarrow> 'a \<Rightarrow> 'a list \<Rightarrow> 'a list" where
  "splice_insert i x xs = take i xs @ [x] @ drop i xs"

definition splice_remove :: "nat \<Rightarrow> 'a list \<Rightarrow> 'a list" where
  "splice_remove i xs = take i xs @ drop (Suc i) xs"

text \<open>\<^verbatim>\<open>Set.prototype.add\<close> and \<^verbatim>\<open>delete\<close> on a set kept in insertion order.\<close>

definition set_add :: "'a \<Rightarrow> 'a list \<Rightarrow> 'a list" where
  "set_add x xs = (if x \<in> set xs then xs else xs @ [x])"

definition set_delete :: "'a \<Rightarrow> 'a list \<Rightarrow> 'a list" where
  "set_delete x xs = filter (\<lambda>y. y \<noteq> x) xs"

definition message :: "eventQueue \<Rightarrow> nat \<Rightarrow> queueMessage" where
  "message q a = heap q ! a"

definition update_message ::
  "nat \<Rightarrow> (queueMessage \<Rightarrow> queueMessage) \<Rightarrow> eventQueue \<Rightarrow> eventQueue" where
  "update_message a f q = q\<lparr>heap := (heap q)[a := f (heap q ! a)]\<rparr>"

definition removeFromQueue :: "string \<Rightarrow> eventQueue \<Rightarrow> eventQueue" where
  "removeFromQueue messageId q =
     (case findIndex (\<lambda>a. msg_id (message q a) = messageId) (queue q) of
        Some index \<Rightarrow> q\<lparr>queue := splice_remove index (queue q)\<rparr>
      | None \<Rightarrow> q)"

text \<open>\<^verbatim>\<open>processMessage\<close> up to its \<^verbatim>\<open>await\<close>.\<close>

definition processMessage_begin :: "nat \<Rightarrow> eventQueue \<Rightarrow> eventQueue" where
  "processMessage_begin a q =
     (let q1 = q\<lparr>processing := set_add (msg_id (message q a)) (processing q)\<rparr>;
          q2 = update_message a (\<lambda>m. m\<lparr>status := Processing\<rparr>) q1
      in q2\<lparr>inFlight := inFlight q2 @ [a]\<rparr>)"

text \<open>The end of a \<^verbatim>\<open>processMessage\<close> call settles its promise in the batch that awaits it:
  a return fulfils it, and \<^verbatim>\<open>Promise.all\<close> is fulfilled when every promise of the batch is;
  a throw rejects it, and \<^verbatim>\<open>Promise.all\<close> rejects at once.\<close>

fun settle_in_frame :: "nat \<Rightarrow> exn + unit \<Rightarrow> loopFrame \<Rightarrow> loopFrame" where
  "settle_in_frame a (Inr u) (AwaitBatch as) = AwaitBatch (filter (\<lambda>b. b \<noteq> a) as)"
| "settle_in_frame a (Inl err) (AwaitBatch as) =
     (if a \<in> set as then Rejected else AwaitBatch as)"
| "settle_in_frame a r AwaitDelay = AwaitDelay"
| "settle_in_frame a r Returned = Returned"
| "settle_in_frame a r Rejected = Rejected"

text \<open>\<^verbatim>\<open>processMessage\<close> after its \<^verbatim>\<open>await\<close>: the \<^verbatim>\<open>try\<close> block continues when the race was
  won by \<^verbatim>\<open>publish\<close> (\<open>Inr\<close>), the \<^verbatim>\<open>catch\<close> block runs when it was rejected (\<open>Inl\<close>), then
  \<^verbatim>\<open>finally\<close>. \<open>now\<close> is the clock. The \<^verbatim>\<open>catch\<close> block itself throws when the date of the
  retry is out of range: \<^verbatim>\<open>status\<close> is written, \<^verbatim>\<open>scheduledAt\<close> is not, and the call is
  rejected after \<^verbatim>\<open>finally\<close>. \<open>result\<close> is how the call ends.\<close>

definition processMessage_settle :: "nat \<Rightarrow> exn + unit \<Rightarrow> nat \<Rightarrow> eventQueue \<Rightarrow> eventQueue" where
  "processMessage_settle a outcome now q =
     (let (result, q1) =
        (case outcome of
           Inr u \<Rightarrow>
             (let q1 = update_message a (\<lambda>m. m\<lparr>status := Completed\<rparr>) q;
                  q2 = update_message a (\<lambda>m. m\<lparr>processedAt := Some now\<rparr>) q1;
                  q3 = q2\<lparr>completedCount := completedCount q2 + 1\<rparr>
              in (Inr (), removeFromQueue (msg_id (message q3 a)) q3))
         | Inl err \<Rightarrow>
             (let q1 = update_message a (\<lambda>m. m\<lparr>retryCount := retryCount m + 1\<rparr>) q
              in if retryCount (message q1 a) \<ge> maxRetries (message q1 a)
                 then (let q2 = update_message a (\<lambda>m. m\<lparr>status := DeadLetter\<rparr>) q1;
                           q3 = q2\<lparr>deadLetter := deadLetter q2 @ [a]\<rparr>;
                           q4 = removeFromQueue (msg_id (message q3 a)) q3
                       in (Inr (), q4\<lparr>failedCount := failedCount q4 + 1\<rparr>))
                 else (let q2 = update_message a (\<lambda>m. m\<lparr>status := Pending\<rparr>) q1
                       in case toISOString (now + retryDelay (options q2)
                                                   * 2 ^ retryCount (message q2 a)) of
                            Inr t \<Rightarrow>
                              (Inr (), update_message a (\<lambda>m. m\<lparr>scheduledAt := Some t\<rparr>) q2)
                          | Inl rangeError \<Rightarrow> (Inl rangeError, q2))))
      in q1\<lparr>processing := set_delete (msg_id (message q1 a)) (processing q1),
             inFlight := filter (\<lambda>b. b \<noteq> a) (inFlight q1),
             loops := map (settle_in_frame a result) (loops q1)\<rparr>)"

text \<open>The filter of \<^verbatim>\<open>startProcessing\<close> that selects the ready messages.\<close>

definition isReady :: "eventQueue \<Rightarrow> nat \<Rightarrow> nat \<Rightarrow> bool" where
  "isReady q now a =
     (let m = message q a
      in status m = Pending \<and> msg_id m \<notin> set (processing q)
         \<and> (case scheduledAt m of None \<Rightarrow> True | Some t \<Rightarrow> isoLessEq t now))"

text \<open>One pass of the \<^verbatim>\<open>while\<close> loop of the \<^verbatim>\<open>startProcessing\<close> call with frame \<open>i\<close>, from the
  loop condition to the next \<^verbatim>\<open>await\<close> or to the return.\<close>

definition loopIteration :: "nat \<Rightarrow> nat \<Rightarrow> eventQueue \<Rightarrow> eventQueue" where
  "loopIteration now i q =
     (if isProcessing q \<and> length (queue q) > 0
      then (let availableSlots = int (maxConcurrent (options q)) - int (length (processing q))
            in if availableSlots \<le> 0
               then q\<lparr>loops := (loops q)[i := AwaitDelay]\<rparr>
               else (let readyMessages =
                           take (nat availableSlots) (filter (isReady q now) (queue q))
                     in if length readyMessages = 0
                        then q\<lparr>loops := (loops q)[i := AwaitDelay]\<rparr>
                        else (let q1 = foldl (\<lambda>q a. processMessage_begin a q) q readyMessages
                              in q1\<lparr>loops := (loops q1)[i := AwaitBatch readyMessages]\<rparr>)))
      else q\<lparr>isProcessing := False, loops := (loops q)[i := Returned]\<rparr>)"

definition startProcessing :: "nat \<Rightarrow> eventQueue \<Rightarrow> eventQueue" where
  "startProcessing now q =
     (if isProcessing q then q
      else loopIteration now (length (loops q))
             (q\<lparr>isProcessing := True, loops := loops q @ [Returned]\<rparr>))"

text \<open>\<^verbatim>\<open>enqueue\<close>: \<open>gen\<close> is the id \<^verbatim>\<open>generateId()\<close> returns, \<open>now\<close> the clock the started loop
  reads.\<close>

definition enqueue ::
  "string \<Rightarrow> nat \<Rightarrow> event \<Rightarrow> int \<Rightarrow> nat option \<Rightarrow> eventQueue \<Rightarrow> string \<times> eventQueue" where
  "enqueue gen now ev prio sched q =
     (let msg = \<lparr>msg_id = gen, msg_event = ev, priority = prio, retryCount = 0,
                 maxRetries = opt_maxRetries (options q), scheduledAt = sched,
                 processedAt = None, status = Pending\<rparr>;
          a = length (heap q);
          q1 = q\<lparr>heap := heap q @ [msg]\<rparr>;
          insertIndex = findIndex (\<lambda>m. priority (message q1 m) < prio) (queue q1);
          q2 = (case insertIndex of
                  None \<Rightarrow> q1\<lparr>queue := queue q1 @ [a]\<rparr>
                | Some i \<Rightarrow> q1\<lparr>queue := splice_insert i a (queue q1)\<rparr>);
          q3 = (if \<not> isProcessing q2 then startProcessing now q2 else q2)
      in (msg_id msg, q3))"

text \<open>\<^verbatim>\<open>schedule\<close> throws, before it enqueues anything, when the date is out of range.\<close>

definition schedule ::
  "string \<Rightarrow> nat \<Rightarrow> event \<Rightarrow> nat \<Rightarrow> int \<Rightarrow> eventQueue \<Rightarrow> exn + string \<times> eventQueue" where
  "schedule gen now ev delayMs prio q =
     (case toISOString (now + delayMs) of
        Inl rangeError \<Rightarrow> Inl rangeError
      | Inr date \<Rightarrow> Inr (enqueue gen now ev prio (Some date) q))"

definition getStats :: "eventQueue \<Rightarrow> queueStats" where
  "getStats q =
     \<lparr>st_pending = length (filter (\<lambda>a. status (message q a) = Pending) (queue q)),
      st_processing = length (processing q),
      st_completed = completedCount q,
      st_failed = failedCount q,
      st_deadLetter = length (deadLetter q)\<rparr>"

definition getPendingMessages :: "eventQueue \<Rightarrow> queueMessage list" where
  "getPendingMessages q =
     filter (\<lambda>m. status m = Pending) (map (message q) (queue q))"

definition getDeadLetterMessages :: "eventQueue \<Rightarrow> queueMessage list" where
  "getDeadLetterMessages q = map (message q) (deadLetter q)"

definition retryDeadLetter :: "string \<Rightarrow> nat \<Rightarrow> eventQueue \<Rightarrow> bool \<times> eventQueue" where
  "retryDeadLetter messageId now q =
     (case findIndex (\<lambda>a. msg_id (message q a) = messageId) (deadLetter q) of
        None \<Rightarrow> (False, q)
      | Some index \<Rightarrow>
          (let a = deadLetter q ! index;
               q1 = q\<lparr>deadLetter := splice_remove index (deadLetter q)\<rparr>;
               q2 = update_message a (\<lambda>m. m\<lparr>status := Pending\<rparr>) q1;
               q3 = update_message a (\<lambda>m. m\<lparr>retryCount := 0\<rparr>) q2;
               q4 = q3\<lparr>queue := queue q3 @ [a]\<rparr>;
               q5 = (if \<not> isProcessing q4 then startProcessing now q4 else q4)
           in (True, q5)))"

definition clearDeadLetter :: "eventQueue \<Rightarrow> eventQueue" where
  "clearDeadLetter q = q\<lparr>deadLetter := []\<rparr>"

definition pause :: "eventQueue \<Rightarrow> eventQueue" where
  "pause q = q\<lparr>isProcessing := False\<rparr>"

definition resume :: "nat \<Rightarrow> eventQueue \<Rightarrow> eventQueue" where
  "resume now q = (if \<not> isProcessing q then startProcessing now q else q)"

definition clear :: "eventQueue \<Rightarrow> eventQueue" where
  "clear q = q\<lparr>queue := [], processing := []\<rparr>"

subsection \<open>Runs of the queue\<close>

text \<open>
  What can happen to a queue, one atomic step at a time: a call of a public method, a
  suspended \<^verbatim>\<open>startProcessing\<close> that continues (\<open>Wake\<close>: its delay has elapsed, or every
  promise of its batch has resolved), and a race of \<^verbatim>\<open>processMessage\<close> that settles
  (\<open>Settle\<close>). Calls carry the values they read from outside: the generated id and the
  clock. \<^verbatim>\<open>generateId\<close> is taken never to return an id it returned before. A step that
  cannot happen in the state (a frame that is not waiting, a message that is not in
  flight, a repeated id) has no result, and neither has a call of \<^verbatim>\<open>schedule\<close> that throws:
  it leaves the queue as it was and hands over no message, so the runs list the calls that
  returned.
\<close>

datatype action =
    Enqueue string nat event int "nat option"
  | Schedule string nat event nat int
  | RetryDeadLetter string nat
  | ClearDeadLetter
  | Pause
  | Resume nat
  | Clear
  | Wake nat nat
  | Settle nat "exn + unit" nat

fun step :: "action \<Rightarrow> eventQueue \<Rightarrow> eventQueue option" where
  "step (Enqueue gen now ev prio sched) q =
     (if gen \<in> msg_id ` set (heap q) then None
      else Some (snd (enqueue gen now ev prio sched q)))"
| "step (Schedule gen now ev delayMs prio) q =
     (if gen \<in> msg_id ` set (heap q) then None
      else (case schedule gen now ev delayMs prio q of
              Inl rangeError \<Rightarrow> None
            | Inr (i, q1) \<Rightarrow> Some q1))"
| "step (RetryDeadLetter messageId now) q = Some (snd (retryDeadLetter messageId now q))"
| "step ClearDeadLetter q = Some (clearDeadLetter q)"
| "step Pause q = Some (pause q)"
| "step (Resume now) q = Some (resume now q)"
| "step Clear q = Some (clear q)"
| "step (Wake i now) q =
     (if i < length (loops q) \<and> (loops q ! i = AwaitDelay \<or> loops q ! i = AwaitBatch [])
      then Some (loopIteration now i q) else None)"
| "step (Settle a outcome now) q =
     (if a \<in> set (inFlight q) then Some (processMessage_settle a outcome now q) else None)"

fun run :: "action list \<Rightarrow> eventQueue \<Rightarrow> eventQueue option" where
  "run [] q = Some q"
| "run (act # acts) q = (case step act q of None \<Rightarrow> None | Some q1 \<Rightarrow> run acts q1)"

fun isRetryDeadLetter :: "action \<Rightarrow> bool" where
  "isRetryDeadLetter (RetryDeadLetter messageId now) = True"
| "isRetryDeadLetter act = False"

fun isEnqueue :: "action \<Rightarrow> bool" where
  "isEnqueue (Enqueue gen now ev prio sched) = True"
| "isEnqueue (Schedule gen now ev delayMs prio) = True"
| "isEnqueue act = False"

text \<open>A call of \<^verbatim>\<open>retryDeadLetter\<close> that returns \<^verbatim>\<open>true\<close>, and the number of such calls in a
  run.\<close>

fun revives :: "action \<Rightarrow> eventQueue \<Rightarrow> bool" where
  "revives (RetryDeadLetter messageId now) q = fst (retryDeadLetter messageId now q)"
| "revives act q = False"

fun retried :: "action list \<Rightarrow> eventQueue \<Rightarrow> nat" where
  "retried [] q = 0"
| "retried (act # acts) q =
     (case step act q of
        None \<Rightarrow> 0
      | Some q1 \<Rightarrow> (if revives act q then 1 else 0) + retried acts q1)"

text \<open>The order of the pending list: higher priority first, and among equal priorities the
  message enqueued first (addresses grow with every \<^verbatim>\<open>enqueue\<close>).\<close>

definition before :: "eventQueue \<Rightarrow> nat \<Rightarrow> nat \<Rightarrow> bool" where
  "before q a b =
     (priority (message q b) < priority (message q a)
      \<or> (priority (message q a) = priority (message q b) \<and> a < b))"

subsection \<open>Invariants and auxiliary states\<close>

text \<open>The ready messages of one pass of the loop, started one after the other.\<close>

definition dispatch :: "nat list \<Rightarrow> eventQueue \<Rightarrow> eventQueue" where
  "dispatch rs q = foldl (\<lambda>q a. processMessage_begin a q) q rs"

text \<open>
  What every run keeps true. Ids in the store are distinct; the two arrays and the messages
  in flight hold each address at most once, and only allocated ones; a dead-lettered
  message is neither pending nor in flight; a message in flight has status
  \<^verbatim>\<open>processing\<close>; a message in the queue or in flight has retries left, a dead-lettered one
  has used its budget exactly; every budget is positive.
\<close>

definition queue_ok :: "eventQueue \<Rightarrow> bool" where
  "queue_ok q =
     (distinct (map msg_id (heap q))
      \<and> distinct (queue q) \<and> distinct (deadLetter q) \<and> distinct (inFlight q)
      \<and> (\<forall>a \<in> set (queue q) \<union> set (deadLetter q) \<union> set (inFlight q). a < length (heap q))
      \<and> (\<forall>a \<in> set (deadLetter q). a \<notin> set (queue q) \<and> a \<notin> set (inFlight q))
      \<and> (\<forall>a \<in> set (inFlight q). status (message q a) = Processing)
      \<and> (\<forall>a \<in> set (queue q) \<union> set (inFlight q).
            retryCount (message q a) < maxRetries (message q a))
      \<and> (\<forall>a \<in> set (deadLetter q).
            status (message q a) = DeadLetter
            \<and> retryCount (message q a) = maxRetries (message q a))
      \<and> (\<forall>m \<in> set (heap q). 0 < maxRetries m)
      \<and> 0 < opt_maxRetries (options q))"

text \<open>What a run keeps true as long as \<^verbatim>\<open>clear\<close> is not called: the messages in flight are
  in the queue, the others in the queue are pending, and the set \<^verbatim>\<open>processing\<close> holds the ids
  of the messages in flight.\<close>

definition flow_ok :: "eventQueue \<Rightarrow> bool" where
  "flow_ok q =
     (set (inFlight q) \<subseteq> set (queue q)
      \<and> (\<forall>a \<in> set (queue q). a \<in> set (inFlight q) \<or> status (message q a) = Pending)
      \<and> processing q = map (\<lambda>a. msg_id (message q a)) (inFlight q))"

text \<open>The \<^verbatim>\<open>finally\<close> block of \<^verbatim>\<open>processMessage\<close> and the resolution of its promise.\<close>

definition finally_settle :: "nat \<Rightarrow> string \<Rightarrow> exn + unit \<Rightarrow> eventQueue \<Rightarrow> eventQueue" where
  "finally_settle a i result q =
     q\<lparr>processing := set_delete i (processing q),
       inFlight := filter (\<lambda>b. b \<noteq> a) (inFlight q),
       loops := map (settle_in_frame a result) (loops q)\<rparr>"

text \<open>What the loop's filter asks of a message, the schedule apart.\<close>

definition ready :: "eventQueue \<Rightarrow> nat \<Rightarrow> bool" where
  "ready q a = (a \<in> set (queue q) \<and> status (message q a) = Pending
                \<and> msg_id (message q a) \<notin> set (processing q))"

text \<open>The queue without the bookkeeping of its loops.\<close>

definition core :: "eventQueue \<Rightarrow> eventQueue" where
  "core q = q\<lparr>isProcessing := False, loops := []\<rparr>"

text \<open>The queue after the insertion of \<^verbatim>\<open>enqueue\<close>, before the loop is started.\<close>

definition inserted :: "string \<Rightarrow> event \<Rightarrow> int \<Rightarrow> nat option \<Rightarrow> eventQueue \<Rightarrow> eventQueue" where
  "inserted gen ev prio sched q =
     q\<lparr>heap := heap q @ [\<lparr>msg_id = gen, msg_event = ev, priority = prio, retryCount = 0,
                            maxRetries = opt_maxRetries (options q), scheduledAt = sched,
                            processedAt = None, status = Pending\<rparr>],
       queue := takeWhile (\<lambda>b. \<not> priority (message q b) < prio) (queue q)
                @ [length (heap q)]
                @ dropWhile (\<lambda>b. \<not> priority (message q b) < prio) (queue q)\<rparr>"

text \<open>The queue after \<^verbatim>\<open>retryDeadLetter\<close> has moved the message, before the loop is started.\<close>

definition revived :: "nat \<Rightarrow> eventQueue \<Rightarrow> eventQueue" where
  "revived a q =
     q\<lparr>deadLetter := filter (\<lambda>b. b \<noteq> a) (deadLetter q),
       heap := (heap q)[a := (message q a)\<lparr>status := Pending, retryCount := 0\<rparr>],
       queue := queue q @ [a]\<rparr>"

fun isClear :: "action \<Rightarrow> bool" where
  "isClear Clear = True"
| "isClear act = False"

text \<open>A message as a step may leave it: untouched, dispatched, or changed by the end of
  its own attempt or by its own \<^verbatim>\<open>retryDeadLetter\<close>.\<close>

definition same_but_status :: "queueMessage \<Rightarrow> queueMessage \<Rightarrow> bool" where
  "same_but_status m' m =
     (msg_id m' = msg_id m \<and> priority m' = priority m \<and> maxRetries m' = maxRetries m
      \<and> retryCount m' = retryCount m \<and> (status m = Completed \<longrightarrow> status m' = Completed)
      \<and> (status m' = status m \<or> (status m = Pending \<and> status m' = Processing)))"

text \<open>The message as the end of \<^verbatim>\<open>processMessage\<close> leaves it, and the steps that end an
  attempt on a message with a failure or a success.\<close>

definition settled_message :: "exn + unit \<Rightarrow> nat \<Rightarrow> nat \<Rightarrow> queueMessage \<Rightarrow> queueMessage" where
  "settled_message outcome now base m =
     (case outcome of
        Inr u \<Rightarrow> m\<lparr>status := Completed, processedAt := Some now\<rparr>
      | Inl err \<Rightarrow>
          if maxRetries m \<le> retryCount m + 1
          then m\<lparr>retryCount := retryCount m + 1, status := DeadLetter\<rparr>
          else if now + base * 2 ^ (retryCount m + 1) \<le> maxDate
          then m\<lparr>retryCount := retryCount m + 1, status := Pending,
                 scheduledAt := Some (now + base * 2 ^ (retryCount m + 1))\<rparr>
          else m\<lparr>retryCount := retryCount m + 1, status := Pending\<rparr>)"

fun failsOn :: "nat \<Rightarrow> action \<Rightarrow> bool" where
  "failsOn b (Settle a (Inl err) now) = (a = b)"
| "failsOn b act = False"

fun succeedsOn :: "nat \<Rightarrow> action \<Rightarrow> bool" where
  "succeedsOn b (Settle a (Inr u) now) = (a = b)"
| "succeedsOn b act = False"


fun revivesMessage :: "action \<Rightarrow> eventQueue \<Rightarrow> nat \<Rightarrow> bool" where
  "revivesMessage (RetryDeadLetter messageId now) q b =
     (b \<in> set (deadLetter q) \<and> msg_id (message q b) = messageId)"
| "revivesMessage act q b = False"

section \<open>Sample values\<close>

definition sampleEvent :: "string \<Rightarrow> eventType \<Rightarrow> event" where
  "sampleEvent i ty =
     \<lparr>ev_id = i, ev_type = ty, timestamp = 0, source = ''test'', correlationId = None,
      metadata = None, payload = []\<rparr>"

definition sampleWebhook :: "string \<Rightarrow> eventType list \<Rightarrow> bool \<Rightarrow> nat \<Rightarrow> webhookConfig" where
  "sampleWebhook i tys a r =
     \<lparr>wh_id = i, url = ''https://example.test/hook'', events = tys, secret = None,
      active = a, wh_retryCount = r, timeout = 5000, createdAt = 0, updatedAt = 0\<rparr>"

definition failingTransport :: "nat \<Rightarrow> nat \<times> (exn + bool)" where
  "failingTransport k = (50, Inr False)"

definition sampleRegistry :: webhookHandler where
  "sampleRegistry =
     registerWebhook (sampleWebhook ''w3'' [TicketCreated] False 0)
       (registerWebhook (sampleWebhook ''w2'' [LmsCourseCompleted] True 0)
         (registerWebhook (sampleWebhook ''w1'' [TicketCreated] True 0)
           (newWebhookHandler 0 failingTransport)))"

definition countingHandler :: "nat handlerBody" where
  "countingHandler event n = (Settles (Inr ()), Suc n)"

definition failingHandler :: "nat handlerBody" where
  "failingHandler event n = (Settles (Inl (Error ''boom'')), n)"

definition slowHandler :: "nat handlerBody" where
  "slowHandler event n = (Awaits 7, n)"

definition sampleBus :: "nat eventBus" where
  "sampleBus =
     snd (on_event ''s2'' (Single TicketCreated) countingHandler
       (snd (on_event ''s1'' (Many [TicketCreated, TicketClosed]) failingHandler
         (newEventBus 0))))"

definition slowBus :: "nat eventBus" where
  "slowBus = snd (on_event ''s3'' (Single TicketCreated) slowHandler sampleBus)"

definition guardedBus :: "nat eventBus" where
  "guardedBus =
     snd (subscribe ''s4''
            \<lparr>sub_id = ''s4'', sub_eventType = Single TicketCreated,
             sub_handler = UserHandler countingHandler,
             sub_filter = Some (\<lambda>event. Inl (Error ''bad filter''))\<rparr> sampleBus)"

definition sampleMessage ::
  "string \<Rightarrow> int \<Rightarrow> nat \<Rightarrow> nat option \<Rightarrow> nat option \<Rightarrow> messageStatus \<Rightarrow> queueMessage" where
  "sampleMessage i p rc sch fin st =
     \<lparr>msg_id = i, msg_event = sampleEvent ''e1'' TicketCreated, priority = p, retryCount = rc,
      maxRetries = 3, scheduledAt = sch, processedAt = fin, status = st\<rparr>"

definition defaultOptions :: queueOptions where
  "defaultOptions =
     \<lparr>maxConcurrent = 5, retryDelay = 1000, opt_maxRetries = 3, processingTimeout = 30000\<rparr>"

definition sampleQueue ::
  "queueMessage list \<Rightarrow> nat list \<Rightarrow> string list \<Rightarrow> nat list \<Rightarrow> nat \<Rightarrow> nat \<Rightarrow> bool
    \<Rightarrow> nat list \<Rightarrow> loopFrame list \<Rightarrow> eventQueue" where
  "sampleQueue h qu pr dl cc fc ip fl ls =
     \<lparr>heap = h, queue = qu, processing = pr, deadLetter = dl, completedCount = cc,
      failedCount = fc, isProcessing = ip, options = defaultOptions, inFlight = fl,
      loops = ls\<rparr>"

definition twoFailures :: "action list" where
  "twoFailures =
     [Enqueue ''m1'' 0 (sampleEvent ''e1'' TicketCreated) 0 None,
      Settle 0 (Inl Thrown) 10, Wake 0 3000, Settle 0 (Inl Thrown) 3010, Wake 0 8000]"

definition firstAttempt :: eventQueue where
  "firstAttempt =
     sampleQueue [sampleMessage ''m1'' 0 0 None None Processing] [0] [''m1''] [] 0 0 True [0]
       [AwaitBatch [0]]"

definition thirdAttempt :: eventQueue where
  "thirdAttempt =
     sampleQueue [sampleMessage ''m1'' 0 2 (Some 7010) None Processing] [0] [''m1''] [] 0 0 True
       [0] [AwaitBatch [0]]"

definition deadLettered :: eventQueue where
  "deadLettered =
     sampleQueue [sampleMessage ''m1'' 0 3 (Some 7010) None DeadLetter] [] [] [0] 0 1 True []
       [AwaitBatch []]"

definition broughtBack :: eventQueue where
  "broughtBack =
     sampleQueue [sampleMessage ''m1'' 0 0 (Some 7010) None Pending] [0] [] [] 0 1 True []
       [AwaitBatch []]"

definition secondLife :: "action list" where
  "secondLife =
     twoFailures @
     [Settle 0 (Inl Thrown) 8010, RetryDeadLetter ''m1'' 9000, Wake 0 9000,
      Settle 0 (Inr ()) 9010, Wake 0 9010]"

definition atRest :: eventQueue where
  "atRest =
     sampleQueue [sampleMessage ''m1'' 0 0 (Some 7010) (Some 9010) Completed] [] [] [] 1 1 False
       [] [Returned]"

definition thirdTimeLucky :: "action list" where
  "thirdTimeLucky = twoFailures @ [Settle 0 (Inr ()) 8010]"

definition luckyEnd :: eventQueue where
  "luckyEnd =
     sampleQueue [sampleMessage ''m1'' 0 2 (Some 7010) (Some 8010) Completed] [] [] [] 1 0 True
       [] [AwaitBatch []]"

definition lateRevival :: "action list" where
  "lateRevival =
     twoFailures @
     [Settle 0 (Inl Thrown) 8010,
      Enqueue ''m2'' 8500 (sampleEvent ''e1'' TicketCreated) (- 1) (Some 99999),
      RetryDeadLetter ''m1'' 9000]"

definition outOfOrder :: eventQueue where
  "outOfOrder =
     sampleQueue [sampleMessage ''m1'' 0 0 (Some 7010) None Pending,
                  sampleMessage ''m2'' (- 1) 0 (Some 99999) None Pending] [1, 0] [] [] 0 1 True
       [] [AwaitBatch []]"

definition oneFiveOne :: "action list" where
  "oneFiveOne =
     [Enqueue ''m1'' 0 (sampleEvent ''e1'' TicketCreated) 1 None,
      Enqueue ''m2'' 0 (sampleEvent ''e1'' TicketCreated) 5 None,
      Enqueue ''m3'' 0 (sampleEvent ''e1'' TicketCreated) 1 None]"

definition threeQueued :: eventQueue where
  "threeQueued =
     sampleQueue [sampleMessage ''m1'' 1 0 None None Processing,
                  sampleMessage ''m2'' 5 0 None None Pending,
                  sampleMessage ''m3'' 1 0 None None Pending] [1, 0, 2] [''m1''] [] 0 0 True [0]
       [AwaitBatch [0]]"

definition nextBatch :: eventQueue where
  "nextBatch =
     sampleQueue [sampleMessage ''m1'' 1 0 None (Some 10) Completed,
                  sampleMessage ''m2'' 5 0 None None Processing,
                  sampleMessage ''m3'' 1 0 None None Processing] [1, 2] [''m2'', ''m3''] [] 1 0
       True [1, 2] [AwaitBatch [1, 2]]"

definition backedOff :: eventQueue where
  "backedOff =
     sampleQueue [sampleMessage ''m1'' 0 1 (Some 2010) None Pending] [0] [] [] 0 0 True []
       [AwaitBatch []]"

definition withFourth :: eventQueue where
  "withFourth =
     sampleQueue [sampleMessage ''m1'' 1 0 None None Processing,
                  sampleMessage ''m2'' 5 0 None None Pending,
                  sampleMessage ''m3'' 1 0 None None Pending,
                  sampleMessage ''m4'' 3 0 None None Pending] [1, 3, 0, 2] [''m1''] [] 0 0 True
       [0] [AwaitBatch [0]]"


definition shortMessage ::
  "nat \<Rightarrow> nat option \<Rightarrow> nat option \<Rightarrow> messageStatus \<Rightarrow> queueMessage" where
  "shortMessage rc sch fin st = (sampleMessage ''m1'' 0 rc sch fin st)\<lparr>maxRetries := 2\<rparr>"

definition shortQueue ::
  "queueMessage list \<Rightarrow> nat list \<Rightarrow> string list \<Rightarrow> nat list \<Rightarrow> nat \<Rightarrow> nat \<Rightarrow> bool
    \<Rightarrow> nat list \<Rightarrow> loopFrame list \<Rightarrow> eventQueue" where
  "shortQueue h qu pr dl cc fc ip fl ls =
     (sampleQueue h qu pr dl cc fc ip fl ls)\<lparr>options := defaultOptions\<lparr>opt_maxRetries := 2\<rparr>\<rparr>"

definition revivedBetween :: "action list" where
  "revivedBetween =
     [Enqueue ''m1'' 0 (sampleEvent ''e1'' TicketCreated) 0 None,
      Settle 0 (Inl Thrown) 10, Wake 0 3000, Settle 0 (Inl Thrown) 3010,
      RetryDeadLetter ''m1'' 9000, Wake 0 9000, Settle 0 (Inr ()) 9010]"

definition revivedAndDone :: eventQueue where
  "revivedAndDone =
     shortQueue [shortMessage 0 (Some 2010) (Some 9010) Completed] [] [] [] 1 1 True []
       [AwaitBatch []]"

definition clearedInFlight :: "action list" where
  "clearedInFlight =
     [Enqueue ''m1'' 0 (sampleEvent ''e1'' TicketCreated) 0 None, Clear,
      Settle 0 (Inl Thrown) 10]"

definition droppedByClear :: eventQueue where
  "droppedByClear =
     sampleQueue [sampleMessage ''m1'' 0 1 (Some 2010) None Pending] [] [] [] 0 0 True []
       [AwaitBatch []]"


definition slowQueue ::
  "queueMessage list \<Rightarrow> nat list \<Rightarrow> string list \<Rightarrow> nat list \<Rightarrow> nat \<Rightarrow> nat \<Rightarrow> bool
    \<Rightarrow> nat list \<Rightarrow> loopFrame list \<Rightarrow> eventQueue" where
  "slowQueue h qu pr dl cc fc ip fl ls =
     (sampleQueue h qu pr dl cc fc ip fl ls)
       \<lparr>options := defaultOptions\<lparr>retryDelay := 8640000000000000\<rparr>\<rparr>"

definition slowAttempt :: eventQueue where
  "slowAttempt =
     slowQueue [sampleMessage ''m1'' 0 0 None None Processing] [0] [''m1''] [] 0 0 True [0]
       [AwaitBatch [0]]"

definition loopLost :: eventQueue where
  "loopLost =
     slowQueue [sampleMessage ''m1'' 0 1 None None Pending] [0] [] [] 0 0 True [] [Rejected]"

definition idleWithDead :: eventQueue where
  "idleWithDead =
     sampleQueue [sampleMessage ''m1'' 0 3 (Some 7010) None DeadLetter] [] [] [0] 0 1 False []
       [Returned]"

definition revivedOnIdle :: eventQueue where
  "revivedOnIdle =
     sampleQueue [sampleMessage ''m1'' 0 0 (Some 7010) None Processing] [0] [''m1''] [] 0 1 True
       [0] [Returned, AwaitBatch [0]]"

definition firstSettled :: eventQueue where
  "firstSettled =
     sampleQueue [sampleMessage ''m1'' 1 0 None (Some 10) Completed,
                  sampleMessage ''m2'' 5 0 None None Pending,
                  sampleMessage ''m3'' 1 0 None None Pending] [1, 2] [] [] 1 0 True []
       [AwaitBatch []]"

section \<open>Properties of the history queries\<close>

lemma slice_from_neg:
  "0 < n \<Longrightarrow> slice_from (- n) xs = drop (length xs - nat n) xs"
  by (auto simp: slice_from_def Let_def max_def nat_diff_distrib')

lemma length_slice_from_neg:
  "0 < n \<Longrightarrow> length (slice_from (- n) xs) = min (nat n) (length xs)"
  by (simp add: slice_from_neg)

text \<open>
  Claim C10. A limit of 0 is ignored: \<^verbatim>\<open>getHistory\<close> and \<^verbatim>\<open>getDeliveryHistory\<close> then return
  the whole filtered history, exactly what they return without a limit. For a limit
  \<open>n > 0\<close> they return the last \<open>min n length\<close> entries of that filtered history, in
  the order of the history.
\<close>

theorem history_limit_zero_and_tail:
  "getHistory (Some \<lparr>hf_eventType = ty, hf_limit = Some 0\<rparr>) h
     = getHistory (Some \<lparr>hf_eventType = ty, hf_limit = None\<rparr>) h
   \<and> getHistory (Some \<lparr>hf_eventType = Some t, hf_limit = Some 0\<rparr>) h
     = filter (\<lambda>e. ev_type e = t) h
   \<and> getHistory (Some \<lparr>hf_eventType = None, hf_limit = Some 0\<rparr>) h = h
   \<and> getDeliveryHistory (Some \<lparr>df_webhookId = w, df_limit = Some 0\<rparr>) d
     = getDeliveryHistory (Some \<lparr>df_webhookId = w, df_limit = None\<rparr>) d
   \<and> (wid \<noteq> [] \<longrightarrow>
        getDeliveryHistory (Some \<lparr>df_webhookId = Some wid, df_limit = Some 0\<rparr>) d
          = filter (\<lambda>r. res_webhookId r = wid) d)
   \<and> getDeliveryHistory (Some \<lparr>df_webhookId = None, df_limit = Some 0\<rparr>) d = d
   \<and> (0 < n \<longrightarrow>
        (let all = getHistory (Some \<lparr>hf_eventType = ty, hf_limit = None\<rparr>) h;
             res = getHistory (Some \<lparr>hf_eventType = ty, hf_limit = Some n\<rparr>) h
         in res = drop (length all - nat n) all \<and> length res = min (nat n) (length all)))
   \<and> (0 < n \<longrightarrow>
        (let all = getDeliveryHistory (Some \<lparr>df_webhookId = w, df_limit = None\<rparr>) d;
             res = getDeliveryHistory (Some \<lparr>df_webhookId = w, df_limit = Some n\<rparr>) d
         in res = drop (length all - nat n) all \<and> length res = min (nat n) (length all)))"
  by (auto simp: getHistory_def getDeliveryHistory_def Let_def slice_from_neg
           split: option.splits)

theorem history_limit_zero_and_tail_witness:
  "getHistory (Some \<lparr>hf_eventType = Some TicketCreated, hf_limit = Some 2\<rparr>)
     [sampleEvent ''e1'' TicketCreated, sampleEvent ''e2'' TicketClosed,
      sampleEvent ''e3'' TicketCreated, sampleEvent ''e4'' TicketCreated]
     = [sampleEvent ''e3'' TicketCreated, sampleEvent ''e4'' TicketCreated]
   \<and> getHistory (Some \<lparr>hf_eventType = Some TicketCreated, hf_limit = Some 0\<rparr>)
     [sampleEvent ''e1'' TicketCreated, sampleEvent ''e2'' TicketClosed,
      sampleEvent ''e3'' TicketCreated, sampleEvent ''e4'' TicketCreated]
     = [sampleEvent ''e1'' TicketCreated, sampleEvent ''e3'' TicketCreated,
        sampleEvent ''e4'' TicketCreated]"
  using history_limit_zero_and_tail
    [of "Some TicketCreated"
        "[sampleEvent ''e1'' TicketCreated, sampleEvent ''e2'' TicketClosed,
          sampleEvent ''e3'' TicketCreated, sampleEvent ''e4'' TicketCreated]"
        TicketCreated None "[]" "''w1''" 2]
  by (simp add: Let_def sampleEvent_def getHistory_def)

section \<open>Webhook delivery\<close>

declare attemptDelivery.simps [simp del]

lemma simulateDelivery_fields:
  "simulateDelivery wh e st = (out, st1) \<Longrightarrow>
     out = snd (transport st (length (transportCalls st)))
   \<and> transportCalls st1 = transportCalls st @ [(wh_id wh, ev_id e)]
   \<and> transport st1 = transport st \<and> deliveryHistory st1 = deliveryHistory st
   \<and> webhooks st1 = webhooks st
   \<and> clock st1 = clock st + fst (transport st (length (transportCalls st)))"
  by (auto simp: simulateDelivery_def delay_def Let_def split: prod.splits)

lemma attempt_unfold:
  "attemptDelivery wh e n st =
     (let (out, st1) = simulateDelivery wh e st;
          result = attemptResult wh n st1 out;
          st2 = recordDelivery result st1
      in if out \<noteq> Inr True \<and> n < wh_retryCount wh
         then attemptDelivery wh e (n + 1) (delay (2 ^ n * 1000) st2)
         else (result, st2))"
  by (subst attemptDelivery.simps)
     (auto simp: Let_def attemptResult_def split: prod.splits sum.splits)


lemma attempt_calls:
  "d = wh_retryCount wh - n \<Longrightarrow> attemptDelivery wh e n st = (result, st') \<Longrightarrow>
   \<exists>k. transportCalls st' = transportCalls st @ replicate (Suc k) (wh_id wh, ev_id e)
      \<and> webhooks st' = webhooks st \<and> transport st' = transport st"
proof (induction d arbitrary: n st)
  case 0
  obtain out st1 where sim: "simulateDelivery wh e st = (out, st1)" by (cases "simulateDelivery wh e st")
  note f = simulateDelivery_fields[OF sim]
  from 0 have nR: "\<not> n < wh_retryCount wh" by simp
  from 0(2) sim nR have res: "st' = recordDelivery (attemptResult wh n st1 out) st1"
    by (subst (asm) attempt_unfold, auto simp: Let_def)
  show ?case
    by (rule exI[of _ 0]) (use res f in \<open>simp add: recordDelivery_def\<close>)
next
  case (Suc d)
  obtain out st1 where sim: "simulateDelivery wh e st = (out, st1)" by (cases "simulateDelivery wh e st")
  note f = simulateDelivery_fields[OF sim]
  let ?r = "attemptResult wh n st1 out"
  let ?st2 = "delay (2 ^ n * 1000) (recordDelivery ?r st1)"
  from Suc have nR: "n < wh_retryCount wh" by simp
  show ?case
  proof (cases "out = Inr True")
    case True
    from Suc.prems(2) sim True have res: "st' = recordDelivery ?r st1"
      by (subst (asm) attempt_unfold, auto simp: Let_def)
    show ?thesis
      by (rule exI[of _ 0]) (use res f in \<open>simp add: recordDelivery_def\<close>)
  next
    case False
    from Suc.prems(2) sim nR False have rec: "attemptDelivery wh e (n + 1) ?st2 = (result, st')"
      by (subst (asm) attempt_unfold, auto simp: Let_def)
    have d: "d = wh_retryCount wh - (n + 1)" using Suc.prems by simp
    from Suc.IH[OF d rec] obtain k where
      k: "transportCalls st' = transportCalls ?st2 @ replicate (Suc k) (wh_id wh, ev_id e)"
         "webhooks st' = webhooks ?st2" "transport st' = transport ?st2"
      by blast
    show ?thesis
      by (rule exI[of _ "Suc k"])
         (use k f in \<open>simp add: recordDelivery_def delay_def replicate_append_same\<close>)
  qed
qed

lemma deliverAll_calls:
  "\<exists>cs. transportCalls (deliverAll whs e st) = transportCalls st @ cs
      \<and> set cs = (\<lambda>w. (wh_id w, ev_id e)) ` set whs
      \<and> webhooks (deliverAll whs e st) = webhooks st"
proof (induction whs arbitrary: st)
  case Nil
  show ?case by simp
next
  case (Cons w whs)
  obtain r st1 where a: "attemptDelivery w e 0 st = (r, st1)" by (cases "attemptDelivery w e 0 st")
  from attempt_calls[OF refl a] obtain k where
    k: "transportCalls st1 = transportCalls st @ replicate (Suc k) (wh_id w, ev_id e)"
       "webhooks st1 = webhooks st" by blast
  from Cons.IH[of st1] obtain cs where
    cs: "transportCalls (deliverAll whs e st1) = transportCalls st1 @ cs"
        "set cs = (\<lambda>w. (wh_id w, ev_id e)) ` set whs"
        "webhooks (deliverAll whs e st1) = webhooks st1" by blast
  show ?case
    by (rule exI[of _ "replicate (Suc k) (wh_id w, ev_id e) @ cs"])
       (use a k cs in \<open>simp del: replicate_Suc\<close>)
qed

text \<open>
  The subscription the constructor makes lists seven of the twenty event types (its
  comments say \<^verbatim>\<open>Subscribe to all event types\<close>): an event of one of these seven published on
  the bus is handed to \<^verbatim>\<open>deliverToMatchingWebhooks\<close>, an event of another type, such as
  \<^verbatim>\<open>ticket.assigned\<close>, never is, whatever the webhooks list.
\<close>

lemma bus_subscription_covers_seven_types:
  "world (snd (publish e (snd (setupEventSubscription gen (newEventBus st)))))
     = (if ev_type e \<in> set webhookEventTypes then deliverToMatchingWebhooks e st else st)"
  "length webhookEventTypes = 7" "TicketAssigned \<notin> set webhookEventTypes"
  by (simp_all add: publish_def setupEventSubscription_def on_event_def subscribe_def
       newEventBus_def matchingSubscriptions_def map_values_def handlerTask_def Let_def
       webhookEventTypes_def split: prod.splits)




lemma map_get_values: "map_get i m = Some w \<Longrightarrow> w \<in> set (map_values m)"
  by (induction m) (auto simp: map_values_def split: if_splits)

text \<open>
  Claim C9 (as amended). For every event it is called with, \<^verbatim>\<open>deliverToMatchingWebhooks\<close>,
  the dispatcher of the bus-driven path, calls the transport exactly for the registered
  webhooks that are active and list the event's type. \<^verbatim>\<open>deliverToWebhook\<close> never calls the
  transport for a missing or an inactive webhook, and calls it for every active one: it
  does not look at the webhook's events.
\<close>

theorem webhook_transport_gating:
  "(\<exists>cs. transportCalls (deliverToMatchingWebhooks event st) = transportCalls st @ cs
        \<and> set cs = (\<lambda>w. (wh_id w, ev_id event)) `
                     {w \<in> set (getWebhooks st). active w \<and> ev_type event \<in> set (events w)})
   \<and> (getWebhook i st = None \<longrightarrow>
        snd (deliverToWebhook i event st) = st
        \<and> \<not> res_success (fst (deliverToWebhook i event st))
        \<and> res_error (fst (deliverToWebhook i event st)) = Some ''Webhook not found'')
   \<and> (getWebhook i st = Some w \<and> \<not> active w \<longrightarrow>
        snd (deliverToWebhook i event st) = st
        \<and> \<not> res_success (fst (deliverToWebhook i event st))
        \<and> res_error (fst (deliverToWebhook i event st)) = Some ''Webhook is inactive'')
   \<and> (getWebhook i st = Some w \<and> active w \<longrightarrow>
        (\<exists>k. transportCalls (snd (deliverToWebhook i event st))
               = transportCalls st @ replicate (Suc k) (wh_id w, ev_id event)))"
proof -
  have a: "\<exists>cs. transportCalls (deliverToMatchingWebhooks event st) = transportCalls st @ cs
        \<and> set cs = (\<lambda>w. (wh_id w, ev_id event)) `
                     {w \<in> set (getWebhooks st). active w \<and> ev_type event \<in> set (events w)}"
  proof -
    from deliverAll_calls[of "matchingWebhooks event st" event st] obtain cs where
      cs: "transportCalls (deliverAll (matchingWebhooks event st) event st) = transportCalls st @ cs"
          "set cs = (\<lambda>w. (wh_id w, ev_id event)) ` set (matchingWebhooks event st)" by blast
    have "set (matchingWebhooks event st)
            = {w \<in> set (getWebhooks st). active w \<and> ev_type event \<in> set (events w)}"
      by (auto simp: matchingWebhooks_def getWebhooks_def)
    with cs show ?thesis by (auto simp: deliverToMatchingWebhooks_def)
  qed
  have b: "\<exists>k. transportCalls (snd (deliverToWebhook i event st))
               = transportCalls st @ replicate (Suc k) (wh_id w, ev_id event)"
    if "getWebhook i st = Some w" "active w"
  proof -
    obtain r st' where at: "attemptDelivery w event 0 st = (r, st')"
      by (cases "attemptDelivery w event 0 st")
    from attempt_calls[OF refl at] obtain k where
      "transportCalls st' = transportCalls st @ replicate (Suc k) (wh_id w, ev_id event)" by blast
    then show ?thesis using that at by (auto simp: deliverToWebhook_def getWebhook_def)
  qed
  show ?thesis
    using a b
    by (auto simp: deliverToWebhook_def getWebhook_def simp del: replicate_Suc)
qed

lemma sampleRegistry_webhooks:
  "webhooks sampleRegistry =
     [(''w1'', sampleWebhook ''w1'' [TicketCreated] True 0),
      (''w2'', sampleWebhook ''w2'' [LmsCourseCompleted] True 0),
      (''w3'', sampleWebhook ''w3'' [TicketCreated] False 0)]"
  "transportCalls sampleRegistry = []"
  by (simp_all add: sampleRegistry_def registerWebhook_def newWebhookHandler_def sampleWebhook_def)

theorem webhook_transport_gating_witness:
  "set (transportCalls (deliverToMatchingWebhooks (sampleEvent ''e1'' TicketCreated) sampleRegistry))
     = {(''w1'', ''e1'')}
   \<and> snd (deliverToWebhook ''w3'' (sampleEvent ''e1'' TicketCreated) sampleRegistry) = sampleRegistry
   \<and> snd (deliverToWebhook ''w9'' (sampleEvent ''e1'' TicketCreated) sampleRegistry) = sampleRegistry
   \<and> set (transportCalls (snd (deliverToWebhook ''w1'' (sampleEvent ''e1'' TicketCreated) sampleRegistry)))
       = {(''w1'', ''e1'')}"
proof -
  let ?e = "sampleEvent ''e1'' TicketCreated"
  have w9: "getWebhook ''w9'' sampleRegistry = None"
    by (simp add: getWebhook_def sampleRegistry_webhooks)
  have w3: "getWebhook ''w3'' sampleRegistry = Some (sampleWebhook ''w3'' [TicketCreated] False 0)"
           "\<not> active (sampleWebhook ''w3'' [TicketCreated] False 0)"
    by (simp_all add: getWebhook_def sampleRegistry_webhooks sampleWebhook_def)
  have w1: "getWebhook ''w1'' sampleRegistry = Some (sampleWebhook ''w1'' [TicketCreated] True 0)"
           "active (sampleWebhook ''w1'' [TicketCreated] True 0)"
           "wh_id (sampleWebhook ''w1'' [TicketCreated] True 0) = ''w1''" "ev_id ?e = ''e1''"
    by (simp_all add: getWebhook_def sampleRegistry_webhooks sampleWebhook_def sampleEvent_def)
  have m: "(\<lambda>w. (wh_id w, ev_id ?e)) `
             {w \<in> set (getWebhooks sampleRegistry). active w \<and> ev_type ?e \<in> set (events w)}
           = {(''w1'', ''e1'')}"
    unfolding set_filter[symmetric]
    by (simp add: getWebhooks_def sampleRegistry_webhooks map_values_def sampleWebhook_def
          sampleEvent_def)
  let ?w1 = "sampleWebhook ''w1'' [TicketCreated] True 0"
  let ?w3 = "sampleWebhook ''w3'' [TicketCreated] False 0"
  note g9 = webhook_transport_gating[of ?e sampleRegistry "''w9''" ?w1]
  note g3 = webhook_transport_gating[of ?e sampleRegistry "''w3''" ?w3]
  note g1 = webhook_transport_gating[of ?e sampleRegistry "''w1''" ?w1]
  have "\<exists>cs. transportCalls (deliverToMatchingWebhooks ?e sampleRegistry)
               = transportCalls sampleRegistry @ cs \<and> set cs = {(''w1'', ''e1'')}"
    using g9 unfolding m by (rule conjunct1)
  then have a: "set (transportCalls (deliverToMatchingWebhooks ?e sampleRegistry)) = {(''w1'', ''e1'')}"
    by (auto simp: sampleRegistry_webhooks)
  have b: "snd (deliverToWebhook ''w3'' ?e sampleRegistry) = sampleRegistry"
    using g3 w3 by blast
  have c: "snd (deliverToWebhook ''w9'' ?e sampleRegistry) = sampleRegistry"
    using g9 w9 by blast
  have "\<exists>k. transportCalls (snd (deliverToWebhook ''w1'' ?e sampleRegistry))
               = transportCalls sampleRegistry @ replicate (Suc k) (wh_id ?w1, ev_id ?e)"
    using g1 w1(1,2) by blast
  then have d: "set (transportCalls (snd (deliverToWebhook ''w1'' ?e sampleRegistry))) = {(''w1'', ''e1'')}"
    unfolding w1 by (auto simp: sampleRegistry_webhooks)
  show ?thesis using a b c d by blast
qed

text \<open>
  The claim as stated fails on the manual path: an active webhook that lists only
  \<open>TicketCreated\<close> is delivered an \<open>LmsCourseCompleted\<close> event by \<^verbatim>\<open>deliverToWebhook\<close>.
\<close>

theorem webhook_manual_delivery_ignores_events:
  "\<not> (\<forall>st i event w. getWebhook i st = Some w
          \<and> (\<not> active w \<or> ev_type event \<notin> set (events w))
        \<longrightarrow> transportCalls (snd (deliverToWebhook i event st)) = transportCalls st)"
proof
  assume h: "\<forall>st i event w. getWebhook i st = Some w
          \<and> (\<not> active w \<or> ev_type event \<notin> set (events w))
        \<longrightarrow> transportCalls (snd (deliverToWebhook i event st)) = transportCalls st"
  let ?e = "sampleEvent ''e2'' LmsCourseCompleted"
  let ?w = "sampleWebhook ''w1'' [TicketCreated] True 0"
  have w1: "getWebhook ''w1'' sampleRegistry = Some ?w" "ev_type ?e \<notin> set (events ?w)"
    by (simp_all add: getWebhook_def sampleRegistry_webhooks sampleWebhook_def sampleEvent_def)
  with h have "transportCalls (snd (deliverToWebhook ''w1'' ?e sampleRegistry))
                 = transportCalls sampleRegistry" by blast
  moreover have "transportCalls (snd (deliverToWebhook ''w1'' ?e sampleRegistry)) = [(''w1'', ''e2'')]"
    by (simp add: deliverToWebhook_def sampleRegistry_def registerWebhook_def newWebhookHandler_def
         sampleWebhook_def sampleEvent_def attempt_unfold simulateDelivery_def failingTransport_def
         delay_def recordDelivery_def Let_def)
  ultimately show False by (simp add: sampleRegistry_webhooks)
qed

section \<open>Publishing\<close>

lemma callHandler_fields:
  "callHandler h e bus = (r, bus') \<Longrightarrow>
     subscriptions bus' = (case onceId h of None \<Rightarrow> subscriptions bus
                           | Some i \<Rightarrow> map_delete i (subscriptions bus))
   \<and> invoked bus' = invoked bus \<and> eventHistory bus' = eventHistory bus
   \<and> (r, world bus') = userBody h e (world bus)"
  by (cases h) (auto simp: unsubscribe_def Let_def split: prod.splits)

lemma handlerTask_fields:
  "handlerTask e sub bus = (t, bus') \<Longrightarrow>
     t = taskOf (fst (userBody (sub_handler sub) e (world bus)))
   \<and> subscriptions bus' = (case onceId (sub_handler sub) of None \<Rightarrow> subscriptions bus
                           | Some i \<Rightarrow> map_delete i (subscriptions bus))
   \<and> invoked bus' = invoked bus @ [sub_id sub] \<and> eventHistory bus' = eventHistory bus
   \<and> world bus' = snd (userBody (sub_handler sub) e (world bus))"
proof -
  assume a: "handlerTask e sub bus = (t, bus')"
  obtain r b2 where c: "callHandler (sub_handler sub) e (bus\<lparr>invoked := invoked bus @ [sub_id sub]\<rparr>) = (r, b2)"
    by (cases "callHandler (sub_handler sub) e (bus\<lparr>invoked := invoked bus @ [sub_id sub]\<rparr>)")
  note f = callHandler_fields[OF c]
  from a c have "t = taskOf r" "subscriptions bus' = subscriptions b2" "invoked bus' = invoked b2"
     "eventHistory bus' = eventHistory b2" "world bus' = world b2"
    by (auto simp: handlerTask_def Let_def split: sum.splits handlerOutcome.splits)
  with f show ?thesis by (auto split: option.splits prod.splits simp: snd_def fst_def)
qed

lemma executeHandlers_fields:
  "executeHandlers e subs bus = (ts, bus') \<Longrightarrow>
     ts = map taskOf (outcomes e subs (world bus))
   \<and> subscriptions bus' = filter (\<lambda>kv. fst kv \<notin> onceIds subs) (subscriptions bus)
   \<and> invoked bus' = invoked bus @ map sub_id subs
   \<and> eventHistory bus' = eventHistory bus
   \<and> world bus' = foldl (\<lambda>w sub. snd (userBody (sub_handler sub) e w)) (world bus) subs"
proof (induction subs arbitrary: bus ts bus')
  case Nil
  then show ?case by (simp add: onceIds_def)
next
  case (Cons sub subs)
  obtain p b1 where t: "handlerTask e sub bus = (p, b1)" by (cases "handlerTask e sub bus")
  obtain qs b2 where x: "executeHandlers e subs b1 = (qs, b2)" by (cases "executeHandlers e subs b1")
  note f = handlerTask_fields[OF t]
  note ih = Cons.IH[OF x]
  from Cons.prems t x have r: "ts = p # qs" "bus' = b2" by auto
  have subs_eq: "subscriptions b2 = filter (\<lambda>kv. fst kv \<notin> onceIds (sub # subs)) (subscriptions bus)"
  proof (cases "onceId (sub_handler sub)")
    case None
    then have "onceIds (sub # subs) = onceIds subs" by (auto simp: onceIds_def)
    with ih f None show ?thesis by simp
  next
    case (Some i)
    then have "onceIds (sub # subs) = insert i (onceIds subs)" by (auto simp: onceIds_def)
    with ih f Some show ?thesis by (auto simp: map_delete_def intro: filter_cong)
  qed
  have ts_eq: "p # qs = map taskOf (outcomes e (sub # subs) (world bus))"
    using f ih by (simp add: split_beta)
  show ?case using r f ih subs_eq ts_eq by simp
qed

lemma filterSubscriptions_Inr:
  "filterSubscriptions e subs = Inr ms \<Longrightarrow>
   ms = filter (\<lambda>sub. matchesEventType (ev_type e) (sub_eventType sub)
                       \<and> passesFilter e (sub_filter sub) = Inr True) subs"
proof (induction subs arbitrary: ms)
  case Nil
  then show ?case by simp
next
  case (Cons sub subs)
  then show ?case by (auto split: if_splits sum.splits)
qed

lemma filterSubscriptions_Inl:
  "(\<exists>err. filterSubscriptions e subs = Inl err)
     \<longleftrightarrow> (\<exists>sub \<in> set subs. matchesEventType (ev_type e) (sub_eventType sub)
                              \<and> isl (passesFilter e (sub_filter sub)))"
proof (induction subs)
  case Nil
  show ?case by simp
next
  case (Cons sub subs)
  show ?case
  proof (cases "matchesEventType (ev_type e) (sub_eventType sub)")
    case False
    with Cons show ?thesis by simp
  next
    case True
    show ?thesis
    proof (cases "passesFilter e (sub_filter sub)")
      case (Inl err)
      with True show ?thesis by auto
    next
      case (Inr keep)
      with True Cons show ?thesis by (cases "filterSubscriptions e subs") auto
    qed
  qed
qed

lemma matching_push: "matchingSubscriptions e (bus\<lparr>eventHistory := h\<rparr>) = matchingSubscriptions e bus"
  by (simp add: matchingSubscriptions_def)

lemma matching_cong:
  "subscriptions bus' = subscriptions bus \<Longrightarrow>
   matchingSubscriptions e bus' = matchingSubscriptions e bus"
  by (simp add: matchingSubscriptions_def)

lemma publish_fields:
  "publish e bus = (pub, bus') \<Longrightarrow>
     eventHistory bus' = push_bounded maxHistorySize e (eventHistory bus)
   \<and> (case matchingSubscriptions e bus of
        Inl err \<Rightarrow>
          pub = Refused err \<and> subscriptions bus' = subscriptions bus
          \<and> invoked bus' = invoked bus \<and> world bus' = world bus \<and> console bus' = console bus
      | Inr subs \<Rightarrow>
          pub = Started e (map taskOf (outcomes e subs (world bus)))
          \<and> subscriptions bus' = filter (\<lambda>kv. fst kv \<notin> onceIds subs) (subscriptions bus)
          \<and> invoked bus' = invoked bus @ map sub_id subs
          \<and> world bus' = foldl (\<lambda>w sub. snd (userBody (sub_handler sub) e w)) (world bus) subs)"
proof -
  assume a: "publish e bus = (pub, bus')"
  let ?b1 = "bus\<lparr>eventHistory := push_bounded maxHistorySize e (eventHistory bus)\<rparr>"
  show ?thesis
  proof (cases "matchingSubscriptions e bus")
    case (Inl err)
    with a show ?thesis by (auto simp: publish_def Let_def matching_push)
  next
    case (Inr subs)
    obtain ts b2 where x: "executeHandlers e subs ?b1 = (ts, b2)"
      by (cases "executeHandlers e subs ?b1")
    note f = executeHandlers_fields[OF x]
    from a x Inr have "pub = Started e ts" "bus' = b2"
      by (auto simp: publish_def Let_def matching_push)
    with f Inr show ?thesis by simp
  qed
qed

lemma settleTasks_fields:
  "settleTasks p r e ts bus = (ts', bus') \<Longrightarrow>
     ts' = map (\<lambda>t. if t = Awaiting p then Ended (Inr ()) else t) ts
   \<and> subscriptions bus' = subscriptions bus \<and> invoked bus' = invoked bus
   \<and> eventHistory bus' = eventHistory bus \<and> world bus' = world bus"
proof (induction ts arbitrary: bus ts' bus')
  case Nil
  then show ?case by simp
next
  case (Cons t ts)
  obtain t1 b1 where h: "(if t = Awaiting p
             then (case r of
                     Inl err \<Rightarrow>
                       (Ended (Inr ()), bus\<lparr>console := console bus @ [(ev_type e, err)]\<rparr>)
                   | Inr u \<Rightarrow> (Ended (Inr ()), bus))
             else (t, bus)) = (t1, b1)"
    by (cases "(if t = Awaiting p
             then (case r of
                     Inl err \<Rightarrow>
                       (Ended (Inr ()), bus\<lparr>console := console bus @ [(ev_type e, err)]\<rparr>)
                   | Inr u \<Rightarrow> (Ended (Inr ()), bus))
             else (t, bus))")
  obtain ts1 b2 where x: "settleTasks p r e ts b1 = (ts1, b2)" by (cases "settleTasks p r e ts b1")
  from h have h': "t1 = (if t = Awaiting p then Ended (Inr ()) else t)"
    "subscriptions b1 = subscriptions bus" "invoked b1 = invoked bus"
    "eventHistory b1 = eventHistory bus" "world b1 = world bus"
    by (auto split: if_splits sum.splits)
  from Cons.prems h x have r: "ts' = t1 # ts1" "bus' = b2" by auto
  from Cons.IH[OF x] h' r show ?case by simp
qed

lemma settleHandler_fields:
  "settleHandler p r s = s' \<Longrightarrow>
     subscriptions (snd s') = subscriptions (snd s) \<and> invoked (snd s') = invoked (snd s)
   \<and> eventHistory (snd s') = eventHistory (snd s) \<and> world (snd s') = world (snd s)
   \<and> fst s' = (case fst s of
                 Refused err \<Rightarrow> Refused err
               | Started e ts \<Rightarrow>
                   Started e (map (\<lambda>t. if t = Awaiting p then Ended (Inr ()) else t) ts))"
proof -
  assume a: "settleHandler p r s = s'"
  obtain pub bus where s: "s = (pub, bus)" by (cases s)
  show ?thesis
  proof (cases pub)
    case (Refused err)
    with a s show ?thesis by auto
  next
    case (Started e ts)
    obtain ts1 b1 where x: "settleTasks p r e ts bus = (ts1, b1)" by (cases "settleTasks p r e ts bus")
    from settleTasks_fields[OF x] a s Started x show ?thesis by auto
  qed
qed

lemma settleHandlers_fields:
  "subscriptions (snd (settleHandlers ss s)) = subscriptions (snd s)
   \<and> invoked (snd (settleHandlers ss s)) = invoked (snd s)
   \<and> eventHistory (snd (settleHandlers ss s)) = eventHistory (snd s)
   \<and> world (snd (settleHandlers ss s)) = world (snd s)
   \<and> fst (settleHandlers ss s)
       = (case fst s of
            Refused err \<Rightarrow> Refused err
          | Started e ts \<Rightarrow>
              Started e (map (\<lambda>t. case t of
                                     Awaiting p \<Rightarrow> if p \<in> fst ` set ss then Ended (Inr ()) else t
                                   | Ended x \<Rightarrow> t) ts))"
proof (induction ss arbitrary: s)
  case Nil
  have n: "map (\<lambda>t. case t of
                       Awaiting p \<Rightarrow> if p \<in> fst ` set [] then Ended (Inr ()) else t
                     | Ended x \<Rightarrow> t) ts = ts" for ts :: "task list"
    by (induction ts) (auto split: task.splits)
  show ?case by (cases "fst s") (simp_all only: n settleHandlers.simps publication.case simp_thms)
next
  case (Cons a ss)
  obtain p r where a: "a = (p, r)" by (cases a)
  note f = settleHandler_fields[OF refl, of p r s]
  note ih = Cons.IH[of "settleHandler p r s"]
  show ?case
  proof (cases "fst s")
    case (Refused err)
    with f ih a show ?thesis by simp
  next
    case (Started e ts)
    have "map (\<lambda>t. case t of
                     Awaiting q \<Rightarrow> if q \<in> fst ` set ss then Ended (Inr ()) else t
                   | Ended x \<Rightarrow> t)
            (map (\<lambda>t. if t = Awaiting p then Ended (Inr ()) else t) ts)
          = map (\<lambda>t. case t of
                     Awaiting q \<Rightarrow> if q \<in> fst ` set (a # ss) then Ended (Inr ()) else t
                   | Ended x \<Rightarrow> t) ts"
      using a by (auto split: task.splits)
    with f ih a Started show ?thesis by simp
  qed
qed

text \<open>\<^verbatim>\<open>Promise.all\<close> over tasks none of which has ended with a rejection.\<close>

lemma promise_all_tasks:
  "\<forall>t \<in> set ts. \<forall>err. t \<noteq> Ended (Inl err) \<Longrightarrow>
   promise_all (map taskPromise ts)
     = (if awaited ts = {} then PromiseFulfilled else PromisePending)"
proof (induction ts)
  case Nil
  show ?case by (simp add: awaited_def)
next
  case (Cons t ts)
  then have ih: "promise_all (map taskPromise ts)
     = (if awaited ts = {} then PromiseFulfilled else PromisePending)" by simp
  show ?case
  proof (cases t)
    case (Awaiting p)
    then have "awaited (t # ts) \<noteq> {}" by (auto simp: awaited_def)
    with Awaiting ih show ?thesis by simp
  next
    case (Ended x)
    with Cons.prems obtain u where x: "x = Inr u" by (cases x) auto
    from Ended have "awaited (t # ts) = awaited ts" by (auto simp: awaited_def)
    with Ended x ih show ?thesis by simp
  qed
qed

lemma settled_promise:
  "publishPromise (Started e (map (\<lambda>t. case t of
                                     Awaiting p \<Rightarrow> if p \<in> S then Ended (Inr ()) else t
                                   | Ended x \<Rightarrow> t) (map taskOf os)))
     = (if awaited (map taskOf os) \<subseteq> S then PromiseFulfilled else PromisePending)"
proof -
  let ?ts = "map (\<lambda>t. case t of
                        Awaiting p \<Rightarrow> if p \<in> S then Ended (Inr ()) else t
                      | Ended x \<Rightarrow> t) (map taskOf os)"
  have n: "\<forall>t \<in> set ?ts. \<forall>err. t \<noteq> Ended (Inl err)"
  proof (intro ballI allI)
    fix t err assume "t \<in> set ?ts"
    then obtain out where "t = (case taskOf out of
                        Awaiting p \<Rightarrow> if p \<in> S then Ended (Inr ()) else taskOf out
                      | Ended x \<Rightarrow> taskOf out)" by auto
    then show "t \<noteq> Ended (Inl err)" by (cases out) (auto split: if_splits)
  qed
  have c: "awaited (t # ts) = (case t of Awaiting p \<Rightarrow> {p} | Ended x \<Rightarrow> {}) \<union> awaited ts"
    for t ts by (auto simp: awaited_def split: task.splits)
  have "awaited ?ts = awaited (map taskOf os) - S"
  proof (induction os)
    case Nil
    show ?case by (simp add: awaited_def)
  next
    case (Cons out os)
    show ?case
      using Cons.IH by (cases out) (auto simp: c)
  qed
  then have "awaited ?ts = {} \<longleftrightarrow> awaited (map taskOf os) \<subseteq> S" by auto
  with promise_all_tasks[OF n] show ?thesis by simp
qed

text \<open>
  Claim C2. When no filter throws, \<^verbatim>\<open>publish\<close> calls the handler of every matching
  subscription (type matches and the optional filter accepts) once, in the order of the
  subscription map, whatever the handlers called before it have done; its promise is never
  rejected, is pending as long as a promise returned by one of these handlers is not
  settled, and is fulfilled as soon as all of them are: a handler that throws, or whose
  promise is rejected, has settled and stops neither \<^verbatim>\<open>publish\<close> nor another handler. When
  the filter of a subscription of the event's type throws, and only then, \<^verbatim>\<open>publish\<close> is
  rejected with what the filter threw before any handler is called.
\<close>

theorem publish_settles_all_handlers:
  "(case matchingSubscriptions event bus of
      Inl err \<Rightarrow>
        fst (publish event bus) = Refused err
        \<and> invoked (snd (publish event bus)) = invoked bus
    | Inr subs \<Rightarrow>
        set subs = {sub \<in> set (getSubscriptions bus).
                      matchesEventType (ev_type event) (sub_eventType sub)
                      \<and> passesFilter event (sub_filter sub) = Inr True}
        \<and> invoked (snd (publish event bus)) = invoked bus @ map sub_id subs
        \<and> fst (publish event bus) = Started event (map taskOf (outcomes event subs (world bus)))
        \<and> (\<forall>ss. publishPromise (fst (settleHandlers ss (publish event bus)))
                  = (if awaited (map taskOf (outcomes event subs (world bus))) \<subseteq> fst ` set ss
                     then PromiseFulfilled else PromisePending)))
   \<and> ((\<exists>err. matchingSubscriptions event bus = Inl err)
        = (\<exists>sub \<in> set (getSubscriptions bus).
             matchesEventType (ev_type event) (sub_eventType sub)
             \<and> isl (passesFilter event (sub_filter sub))))"
proof -
  note pf = publish_fields[of event bus "fst (publish event bus)" "snd (publish event bus)",
      simplified]
  have a: "(\<exists>err. matchingSubscriptions event bus = Inl err)
        = (\<exists>sub \<in> set (getSubscriptions bus).
             matchesEventType (ev_type event) (sub_eventType sub)
             \<and> isl (passesFilter event (sub_filter sub)))"
    unfolding matchingSubscriptions_def getSubscriptions_def by (rule filterSubscriptions_Inl)
  have b: "case matchingSubscriptions event bus of
      Inl err \<Rightarrow>
        fst (publish event bus) = Refused err
        \<and> invoked (snd (publish event bus)) = invoked bus
    | Inr subs \<Rightarrow>
        set subs = {sub \<in> set (getSubscriptions bus).
                      matchesEventType (ev_type event) (sub_eventType sub)
                      \<and> passesFilter event (sub_filter sub) = Inr True}
        \<and> invoked (snd (publish event bus)) = invoked bus @ map sub_id subs
        \<and> fst (publish event bus) = Started event (map taskOf (outcomes event subs (world bus)))
        \<and> (\<forall>ss. publishPromise (fst (settleHandlers ss (publish event bus)))
                  = (if awaited (map taskOf (outcomes event subs (world bus))) \<subseteq> fst ` set ss
                     then PromiseFulfilled else PromisePending))"
  proof (cases "matchingSubscriptions event bus")
    case (Inl err)
    with pf show ?thesis by simp
  next
    case (Inr subs)
    from filterSubscriptions_Inr[OF Inr[unfolded matchingSubscriptions_def]]
    have s: "set subs = {sub \<in> set (getSubscriptions bus).
                      matchesEventType (ev_type event) (sub_eventType sub)
                      \<and> passesFilter event (sub_filter sub) = Inr True}"
      by (auto simp: getSubscriptions_def)
    from pf Inr have st: "fst (publish event bus)
        = Started event (map taskOf (outcomes event subs (world bus)))"
      and inv: "invoked (snd (publish event bus)) = invoked bus @ map sub_id subs" by simp_all
    have "publishPromise (fst (settleHandlers ss (publish event bus)))
                  = (if awaited (map taskOf (outcomes event subs (world bus))) \<subseteq> fst ` set ss
                     then PromiseFulfilled else PromisePending)" for ss
    proof -
      have "fst (settleHandlers ss (publish event bus))
              = Started event
                  (map (\<lambda>t. case t of
                              Awaiting p \<Rightarrow> if p \<in> fst ` set ss then Ended (Inr ()) else t
                            | Ended x \<Rightarrow> t)
                     (map taskOf (outcomes event subs (world bus))))"
        using settleHandlers_fields[of ss "publish event bus"] st by simp
      then show ?thesis by (simp only: settled_promise)
    qed
    with s st inv Inr show ?thesis by simp
  qed
  show ?thesis using a b by blast
qed

lemma map_set_keys:
  "map fst (map_set k v m) = (if k \<in> set (map fst m) then map fst m else map fst m @ [k])"
  by (induction m) force+

lemma map_set_distinct: "distinct (map fst m) \<Longrightarrow> distinct (map fst (map_set k v m))"
  by (simp add: map_set_keys)

lemma map_set_get: "map_get k (map_set k v m) = Some v"
  by (induction m) auto

lemma map_get_mem: "distinct (map fst m) \<Longrightarrow> (k, v) \<in> set m \<Longrightarrow> map_get k m = Some v"
  by (induction m) (auto simp: rev_image_eqI)

lemma map_set_all:
  "list_all P m \<Longrightarrow> P (k, v) \<Longrightarrow> list_all P (map_set k v m)"
  by (induction m) auto

lemma subscribe_ok:
  "bus_ok bus \<Longrightarrow> onceId (sub_handler sub) \<in> {None, Some (fst (subscribe gen sub bus))} \<Longrightarrow>
   bus_ok (snd (subscribe gen sub bus))"
  by (simp add: bus_ok_def subscribe_def Let_def map_set_distinct map_set_all entry_ok_def)

lemma unsubscribe_ok: "bus_ok bus \<Longrightarrow> bus_ok (unsubscribe i bus)"
  by (simp add: bus_ok_def unsubscribe_def map_delete_def distinct_map_filter list_all_iff)

lemma publish_ok: "bus_ok bus \<Longrightarrow> bus_ok (snd (publish e bus))"
  using publish_fields[of e bus "fst (publish e bus)" "snd (publish e bus)"]
  by (cases "matchingSubscriptions e bus")
     (simp_all add: bus_ok_def distinct_map_filter list_all_iff)

lemma settleHandlers_ok: "bus_ok (snd s) \<Longrightarrow> bus_ok (snd (settleHandlers ss s))"
  using settleHandlers_fields[of ss s] by (simp add: bus_ok_def)

text \<open>How often the handler of subscription \<open>i\<close> is among the matching ones.\<close>

lemma count_matching:
  assumes ok: "bus_ok bus" and m: "matchingSubscriptions e bus = Inr subs"
  shows "count_list (map sub_id subs) i
           = (case map_get i (subscriptions bus) of
                None \<Rightarrow> 0
              | Some sub \<Rightarrow> if matchesEventType (ev_type e) (sub_eventType sub)
                                \<and> passesFilter e (sub_filter sub) = Inr True then 1 else 0)"
proof -
  have "distinct (map fst m) \<Longrightarrow> list_all entry_ok m \<Longrightarrow>
        count_list (map sub_id (filter P (map snd m))) i
          = (case map_get i m of None \<Rightarrow> 0 | Some sub \<Rightarrow> if P sub then 1 else 0)"
    for m :: "(string \<times> 'a eventSubscription) list" and P
  proof (induction m)
    case Nil
    show ?case by simp
  next
    case (Cons a m)
    obtain k v where a: "a = (k, v)" by (cases a)
    show ?case
    proof (cases "k = i")
      case True
      with Cons.prems a have "i \<notin> fst ` set m" by auto
      then have "\<forall>x \<in> set m. sub_id (snd x) \<noteq> i"
        using Cons.prems(2) by (auto simp: list_all_iff entry_ok_def)
      then have "count_list (map sub_id (filter P (map snd m))) i = 0"
        by (auto simp: count_list_0_iff)
      with True a Cons.prems show ?thesis by (simp add: entry_ok_def)
    next
      case False
      with Cons a show ?thesis by (simp add: entry_ok_def)
    qed
  qed
  from this[of "subscriptions bus"] ok
    filterSubscriptions_Inr[OF m[unfolded matchingSubscriptions_def]]
  show ?thesis
    by (simp add: bus_ok_def map_values_def)
qed

lemma map_get_filter:
  "map_get i (filter (\<lambda>kv. fst kv \<notin> S) m) = (if i \<in> S then None else map_get i m)"
  by (induction m) auto

lemma map_get_onceIds:
  assumes ok: "bus_ok bus" and ms: "matchingSubscriptions e bus = Inr subs"
    and g: "map_get i (subscriptions bus) = Some sub"
    and h: "onceId (sub_handler sub) = Some i"
    and m: "matchesEventType (ev_type e) (sub_eventType sub)
            \<and> passesFilter e (sub_filter sub) = Inr True"
  shows "i \<in> onceIds subs"
proof -
  have "map_get i m = Some sub \<Longrightarrow> sub \<in> set (map snd m)" for m :: "(string \<times> 'a eventSubscription) list"
    by (induction m) (auto split: if_splits)
  from this[OF g] m h filterSubscriptions_Inr[OF ms[unfolded matchingSubscriptions_def]]
  show ?thesis
    by (auto simp: onceIds_def map_values_def)
qed

lemma once_fields:
  "once gen ty h bus = (i, bus1) \<Longrightarrow>
     i = gen \<and> invoked bus1 = invoked bus \<and>
     map_get gen (subscriptions bus1)
       = Some \<lparr>sub_id = gen, sub_eventType = Single ty, sub_handler = OnceWrapper gen h,
               sub_filter = None\<rparr>"
  by (auto simp: once_def subscribe_def Let_def map_set_get)

lemma once_ok: "bus_ok bus \<Longrightarrow> bus_ok (snd (once gen ty h bus))"
  unfolding once_def Let_def by (rule subscribe_ok) (simp_all add: subscribe_def)

text \<open>What a publish, and the settlements that follow it, do to the subscription \<open>gen\<close> that
  \<^verbatim>\<open>once\<close> made, and how often they call its handler.\<close>

lemma publish_once:
  fixes bus :: "'w eventBus" and e :: event and ss :: "(nat \<times> (exn + unit)) list"
  assumes ok: "bus_ok bus"
    and g: "map_get gen (subscriptions bus) = Some sub \<or> map_get gen (subscriptions bus) = None"
    and sub: "sub = \<lparr>sub_id = gen, sub_eventType = Single ty, sub_handler = OnceWrapper gen h,
                     sub_filter = None\<rparr>"
  defines "bus' \<equiv> snd (settleHandlers ss (publish e bus))"
    and "there \<equiv> map_get gen (subscriptions bus) \<noteq> None"
    and "reached \<equiv> (ev_type e = ty \<and> \<not> isl (matchingSubscriptions e bus))"
  shows "bus_ok bus'"
    and "count_list (invoked bus') gen
           = count_list (invoked bus) gen + (if there \<and> reached then 1 else 0)"
    and "map_get gen (subscriptions bus')
           = (if reached then None else map_get gen (subscriptions bus))"
proof -
  let ?b = "snd (publish e bus)"
  note sf = settleHandlers_fields[of ss "publish e bus"]
  note pf = publish_fields[of e bus "fst (publish e bus)" ?b, simplified]
  show "bus_ok bus'" unfolding bus'_def by (rule settleHandlers_ok[OF publish_ok[OF ok]])
  have "count_list (invoked ?b) gen
           = count_list (invoked bus) gen + (if there \<and> reached then 1 else 0)
        \<and> map_get gen (subscriptions ?b)
           = (if reached then None else map_get gen (subscriptions bus))"
  proof (cases "matchingSubscriptions e bus")
    case (Inl err)
    with pf show ?thesis by (simp add: reached_def)
  next
    case (Inr subs)
    note cm = count_matching[OF ok Inr, of gen]
    from pf Inr have inv: "invoked ?b = invoked bus @ map sub_id subs"
      and sb: "subscriptions ?b = filter (\<lambda>kv. fst kv \<notin> onceIds subs) (subscriptions bus)"
      by simp_all
    show ?thesis
    proof (cases "map_get gen (subscriptions bus)")
      case None
      have "map_get gen (subscriptions ?b) = None" unfolding sb by (simp add: map_get_filter None)
      with cm None inv show ?thesis by (simp add: there_def)
    next
      case (Some s)
      with g have s: "s = sub" by simp
      show ?thesis
      proof (cases "ev_type e = ty")
        case True
        have "gen \<in> onceIds subs"
          by (rule map_get_onceIds[OF ok Inr, of gen sub]) (use Some s sub True in auto)
        then have "map_get gen (subscriptions ?b) = None" unfolding sb by (simp add: map_get_filter)
        with cm Some s sub True inv Inr show ?thesis by (simp add: there_def reached_def)
      next
        case False
        have "gen \<notin> onceIds subs"
        proof
          assume "gen \<in> onceIds subs"
          then obtain x where x: "x \<in> set subs" "onceId (sub_handler x) = Some gen"
            by (auto simp: onceIds_def)
          from filterSubscriptions_Inr[OF Inr[unfolded matchingSubscriptions_def]] x(1)
          obtain k where k: "(k, x) \<in> set (subscriptions bus)"
            and ms: "matchesEventType (ev_type e) (sub_eventType x)"
            by (auto simp: map_values_def)
          from k ok x(2) have "k = gen" by (auto simp: bus_ok_def list_all_iff entry_ok_def)
          with k ok have "map_get gen (subscriptions bus) = Some x"
            by (auto simp: bus_ok_def intro: map_get_mem)
          with Some s have "x = sub" by simp
          with ms False sub show False by simp
        qed
        then have "map_get gen (subscriptions ?b) = map_get gen (subscriptions bus)"
          unfolding sb by (simp add: map_get_filter)
        with cm Some s sub False inv show ?thesis by (simp add: there_def reached_def)
      qed
    qed
  qed
  with sf show "count_list (invoked bus') gen
           = count_list (invoked bus) gen + (if there \<and> reached then 1 else 0)"
    and "map_get gen (subscriptions bus')
           = (if reached then None else map_get gen (subscriptions bus))"
    unfolding bus'_def by simp_all
qed

text \<open>
  Claim C7. The wrapper built by \<^verbatim>\<open>once\<close> unsubscribes before it runs the caller's
  handler, and over two publishes made one after the other (whatever the handlers of the
  first have returned, and whichever of their promises are settled before the second) that
  handler is called at most once: exactly once when one of the two publishes reaches its
  handlers (no filter throws) with an event of the type, never otherwise, and after its
  call the subscription is gone.
\<close>

theorem once_invoked_at_most_once:
  assumes ok: "bus_ok bus"
  shows "callHandler (OnceWrapper i handler) event b
           = callHandler (UserHandler handler) event (unsubscribe i b)
   \<and> (let (i, bus1) = once gen ty handler bus;
           bus2 = snd (settleHandlers ss1 (publish e1 bus1));
           bus3 = snd (settleHandlers ss2 (publish e2 bus2));
           reached1 = (ev_type e1 = ty \<and> \<not> isl (matchingSubscriptions e1 bus1));
           reached2 = (ev_type e2 = ty \<and> \<not> isl (matchingSubscriptions e2 bus2))
       in count_list (invoked bus3) i
            = count_list (invoked bus) i + (if reached1 \<or> reached2 then 1 else 0)
        \<and> (reached1 \<or> reached2 \<longrightarrow> map_get i (subscriptions bus3) = None))"
proof -
  let ?sub = "\<lparr>sub_id = gen, sub_eventType = Single ty, sub_handler = OnceWrapper gen handler,
               sub_filter = None\<rparr>"
  obtain i' bus1 where o: "once gen ty handler bus = (i', bus1)" by (cases "once gen ty handler bus")
  note f1 = once_fields[OF o]
  have ok1: "bus_ok bus1" using once_ok[OF ok, of gen ty handler] o by simp
  let ?bus2 = "snd (settleHandlers ss1 (publish e1 bus1))"
  let ?bus3 = "snd (settleHandlers ss2 (publish e2 ?bus2))"
  let ?r1 = "ev_type e1 = ty \<and> \<not> isl (matchingSubscriptions e1 bus1)"
  let ?r2 = "ev_type e2 = ty \<and> \<not> isl (matchingSubscriptions e2 ?bus2)"
  have g1: "map_get gen (subscriptions bus1) = Some ?sub \<or> map_get gen (subscriptions bus1) = None"
    using f1 by simp
  note p1 = publish_once[OF ok1 g1 refl, of ss1 e1]
  have g2: "map_get gen (subscriptions ?bus2) = Some ?sub \<or> map_get gen (subscriptions ?bus2) = None"
    using p1(3) f1 by simp
  note p2 = publish_once[OF p1(1) g2 refl, of ss2 e2]
  have cnt: "count_list (invoked ?bus3) gen
       = count_list (invoked bus) gen + (if ?r1 \<or> ?r2 then 1 else 0)"
    using p1(2,3) p2(2) f1 by auto
  have g3: "map_get gen (subscriptions ?bus3) = None" if "?r1 \<or> ?r2"
    using that p1(3) p2(3) by auto
  have first: "callHandler (OnceWrapper i handler) event b
           = callHandler (UserHandler handler) event (unsubscribe i b)"
    by (simp add: Let_def)
  show ?thesis using first cnt g3 o f1 by (simp add: Let_def)
qed

lemma sampleBus_fields:
  "subscriptions sampleBus =
      [(''s1'', \<lparr>sub_id = ''s1'', sub_eventType = Many [TicketCreated, TicketClosed],
                 sub_handler = UserHandler failingHandler, sub_filter = None\<rparr>),
       (''s2'', \<lparr>sub_id = ''s2'', sub_eventType = Single TicketCreated,
                 sub_handler = UserHandler countingHandler, sub_filter = None\<rparr>)]"
  "invoked sampleBus = []" "world sampleBus = 0" "console sampleBus = []"
  by (simp_all add: sampleBus_def on_event_def subscribe_def newEventBus_def Let_def)

lemma slowBus_fields:
  "subscriptions slowBus =
      [(''s1'', \<lparr>sub_id = ''s1'', sub_eventType = Many [TicketCreated, TicketClosed],
                 sub_handler = UserHandler failingHandler, sub_filter = None\<rparr>),
       (''s2'', \<lparr>sub_id = ''s2'', sub_eventType = Single TicketCreated,
                 sub_handler = UserHandler countingHandler, sub_filter = None\<rparr>),
       (''s3'', \<lparr>sub_id = ''s3'', sub_eventType = Single TicketCreated,
                 sub_handler = UserHandler slowHandler, sub_filter = None\<rparr>)]"
  "invoked slowBus = []" "world slowBus = 0" "console slowBus = []"
  by (simp_all add: slowBus_def sampleBus_fields on_event_def subscribe_def Let_def)

lemma guardedBus_fields:
  "subscriptions guardedBus =
      [(''s1'', \<lparr>sub_id = ''s1'', sub_eventType = Many [TicketCreated, TicketClosed],
                 sub_handler = UserHandler failingHandler, sub_filter = None\<rparr>),
       (''s2'', \<lparr>sub_id = ''s2'', sub_eventType = Single TicketCreated,
                 sub_handler = UserHandler countingHandler, sub_filter = None\<rparr>),
       (''s4'', \<lparr>sub_id = ''s4'', sub_eventType = Single TicketCreated,
                 sub_handler = UserHandler countingHandler,
                 sub_filter = Some (\<lambda>event. Inl (Error ''bad filter''))\<rparr>)]"
  "invoked guardedBus = []"
  by (simp_all add: guardedBus_def sampleBus_fields subscribe_def Let_def)

theorem publish_settles_all_handlers_witness:
  "invoked (snd (publish (sampleEvent ''e1'' TicketCreated) slowBus)) = [''s1'', ''s2'', ''s3'']
   \<and> fst (publish (sampleEvent ''e1'' TicketCreated) slowBus)
       = Started (sampleEvent ''e1'' TicketCreated) [Ended (Inr ()), Ended (Inr ()), Awaiting 7]
   \<and> console (snd (publish (sampleEvent ''e1'' TicketCreated) slowBus))
       = [(TicketCreated, Error ''boom'')]
   \<and> publishPromise (fst (publish (sampleEvent ''e1'' TicketCreated) slowBus)) = PromisePending
   \<and> publishPromise
        (fst (settleHandlers [(3, Inr ())] (publish (sampleEvent ''e1'' TicketCreated) slowBus)))
       = PromisePending
   \<and> publishPromise
        (fst (settleHandlers [(7, Inl Thrown)]
               (publish (sampleEvent ''e1'' TicketCreated) slowBus)))
       = PromiseFulfilled
   \<and> fst (publish (sampleEvent ''e1'' TicketCreated) guardedBus) = Refused (Error ''bad filter'')
   \<and> invoked (snd (publish (sampleEvent ''e1'' TicketCreated) guardedBus)) = []"
proof -
  let ?e = "sampleEvent ''e1'' TicketCreated"
  let ?subs = "map snd (subscriptions slowBus)"
  have et: "ev_type ?e = TicketCreated" by (simp add: sampleEvent_def)
  have m: "matchingSubscriptions ?e slowBus = Inr ?subs"
    by (simp add: matchingSubscriptions_def slowBus_fields map_values_def et)
  have o: "map taskOf (outcomes ?e ?subs (world slowBus))
             = [Ended (Inr ()), Ended (Inr ()), Awaiting 7]"
    by (simp add: slowBus_fields failingHandler_def countingHandler_def slowHandler_def)
  have aw: "awaited [Ended (Inr ()), Ended (Inr ()), Awaiting 7] = {7}"
    by (auto simp: awaited_def)
  have mg: "matchingSubscriptions ?e guardedBus = Inl (Error ''bad filter'')"
    by (simp add: matchingSubscriptions_def guardedBus_fields map_values_def et)
  have c: "console (snd (publish ?e slowBus)) = [(TicketCreated, Error ''boom'')]"
    by (simp add: publish_def matching_push m slowBus_fields handlerTask_def failingHandler_def
          countingHandler_def slowHandler_def et Let_def)
  note t = publish_settles_all_handlers[of ?e slowBus, unfolded m sum.case o aw]
  from t have a: "invoked (snd (publish ?e slowBus)) = invoked slowBus @ map sub_id ?subs"
    "fst (publish ?e slowBus) = Started ?e [Ended (Inr ()), Ended (Inr ()), Awaiting 7]"
    "\<And>ss. publishPromise (fst (settleHandlers ss (publish ?e slowBus)))
             = (if {7} \<subseteq> fst ` set ss then PromiseFulfilled else PromisePending)"
    by blast+
  note u = publish_settles_all_handlers[of ?e guardedBus, unfolded mg sum.case]
  from u have g: "fst (publish ?e guardedBus) = Refused (Error ''bad filter'')"
    "invoked (snd (publish ?e guardedBus)) = invoked guardedBus"
    by blast+
  have p0: "publishPromise (fst (publish ?e slowBus)) = PromisePending"
    using a(3)[of "[]"] by simp
  have p1: "publishPromise (fst (settleHandlers [(3, Inr ())] (publish ?e slowBus)))
              = PromisePending"
    unfolding a(3) by simp
  have p2: "publishPromise (fst (settleHandlers [(7, Inl Thrown)] (publish ?e slowBus)))
              = PromiseFulfilled"
    unfolding a(3) by simp
  show ?thesis
    using a(1,2) c p0 p1 p2 g by (simp add: slowBus_fields guardedBus_fields)
qed

theorem once_invoked_at_most_once_witness:
  "bus_ok slowBus
   \<and> \<not> isl (matchingSubscriptions (sampleEvent ''e1'' TicketCreated)
              (snd (once ''o1'' TicketCreated countingHandler slowBus)))
   \<and> count_list (invoked (snd (settleHandlers []
        (publish (sampleEvent ''e2'' TicketCreated)
          (snd (settleHandlers [(7, Inr ())]
            (publish (sampleEvent ''e1'' TicketCreated)
              (snd (once ''o1'' TicketCreated countingHandler slowBus))))))))) ''o1'' = 1
   \<and> map_get ''o1'' (subscriptions (snd (settleHandlers []
        (publish (sampleEvent ''e2'' TicketCreated)
          (snd (settleHandlers [(7, Inr ())]
            (publish (sampleEvent ''e1'' TicketCreated)
              (snd (once ''o1'' TicketCreated countingHandler slowBus))))))))) = None"
proof -
  have ok: "bus_ok slowBus"
    by (simp add: bus_ok_def entry_ok_def slowBus_fields)
  have i: "fst (once ''o1'' TicketCreated countingHandler slowBus) = ''o1''"
    by (simp add: once_def subscribe_def Let_def)
  have r: "\<not> isl (matchingSubscriptions (sampleEvent ''e1'' TicketCreated)
              (snd (once ''o1'' TicketCreated countingHandler slowBus)))"
    by (simp add: matchingSubscriptions_def once_def subscribe_def Let_def slowBus_fields
          map_values_def sampleEvent_def)
  have inv: "invoked slowBus = []" by (simp add: slowBus_fields)
  show ?thesis
    using once_invoked_at_most_once[OF ok, of "''o1''" countingHandler
        "sampleEvent ''e1'' TicketCreated" slowBus "''o1''" TicketCreated "[(7, Inr ())]"
        "sampleEvent ''e1'' TicketCreated" "[]" "sampleEvent ''e2'' TicketCreated"] ok i r inv
    by (simp add: Let_def split_beta sampleEvent_def)
qed

section \<open>The queue: invariants of every run\<close>

subsection \<open>Store\<close>

lemma update_message_fields [simp]:
  "length (heap (update_message a f q)) = length (heap q)"
  "queue (update_message a f q) = queue q"
  "processing (update_message a f q) = processing q"
  "deadLetter (update_message a f q) = deadLetter q"
  "completedCount (update_message a f q) = completedCount q"
  "failedCount (update_message a f q) = failedCount q"
  "isProcessing (update_message a f q) = isProcessing q"
  "options (update_message a f q) = options q"
  "inFlight (update_message a f q) = inFlight q"
  "loops (update_message a f q) = loops q"
  by (simp_all add: update_message_def)

lemma message_update:
  "message (update_message a f q) b
     = (if b = a \<and> a < length (heap q) then f (message q a) else message q b)"
  by (cases "a < length (heap q)")
     (auto simp: update_message_def message_def list_update_beyond not_less)

lemma message_same_heap: "heap q' = heap q \<Longrightarrow> message q' a = message q a"
  by (simp add: message_def)

lemma ids_update:
  "(\<And>m. msg_id (f m) = msg_id m) \<Longrightarrow>
   map msg_id (heap (update_message a f q)) = map msg_id (heap q)"
  by (cases "a < length (heap q)")
     (simp_all add: update_message_def map_update list_update_same_conv list_update_beyond
        not_less)

subsection \<open>findIndex\<close>

lemma findIndex_None: "findIndex P xs = None \<longleftrightarrow> (\<forall>x \<in> set xs. \<not> P x)"
  by (induction xs) auto

lemma findIndex_Some:
  "findIndex P xs = Some i \<Longrightarrow> i < length xs \<and> P (xs ! i) \<and> (\<forall>j < i. \<not> P (xs ! j))"
proof (induction xs arbitrary: i)
  case Nil
  then show ?case by simp
next
  case (Cons x xs)
  show ?case
  proof (cases "P x")
    case True
    with Cons.prems show ?thesis by simp
  next
    case False
    with Cons.prems obtain k where k: "findIndex P xs = Some k" "i = Suc k" by auto
    from Cons.IH[OF k(1)] False k(2) show ?thesis by (auto simp: less_Suc_eq_0_disj)
  qed
qed

lemma findIndex_takeWhile:
  "(case findIndex P xs of None \<Rightarrow> xs @ [x] | Some i \<Rightarrow> splice_insert i x xs)
     = takeWhile (\<lambda>y. \<not> P y) xs @ [x] @ dropWhile (\<lambda>y. \<not> P y) xs"
  by (induction xs) (auto simp: splice_insert_def split: option.splits)

lemma findIndex_remove:
  "distinct xs \<Longrightarrow> (\<forall>x \<in> set xs. P x \<longleftrightarrow> x = a) \<Longrightarrow>
   (case findIndex P xs of None \<Rightarrow> xs | Some i \<Rightarrow> splice_remove i xs) = filter (\<lambda>b. b \<noteq> a) xs"
proof (induction xs)
  case Nil
  show ?case by simp
next
  case (Cons x xs)
  show ?case
  proof (cases "x = a")
    case True
    with Cons.prems have "a \<notin> set xs" by simp
    then have "filter (\<lambda>b. b \<noteq> a) xs = xs" by (auto simp: filter_id_conv)
    with True Cons.prems show ?thesis by (simp add: splice_remove_def)
  next
    case False
    with Cons show ?thesis by (auto simp: splice_remove_def split: option.splits)
  qed
qed

lemma findIndex_nth:
  "distinct xs \<Longrightarrow> (\<forall>x \<in> set xs. P x \<longleftrightarrow> x = a) \<Longrightarrow> findIndex P xs = Some i \<Longrightarrow> xs ! i = a"
  using findIndex_Some[of P xs i] by (auto simp: nth_mem)

subsection \<open>Identity of messages\<close>

lemma id_eq_addr:
  assumes "distinct (map msg_id (heap q))" "a < length (heap q)" "b < length (heap q)"
  shows "msg_id (message q b) = msg_id (message q a) \<longleftrightarrow> b = a"
  using assms nth_eq_iff_index_eq[of "map msg_id (heap q)" b a] by (auto simp: message_def)

lemma removeFromQueue_eq:
  assumes "distinct (map msg_id (heap q))" "distinct (queue q)"
    "\<forall>b \<in> set (queue q). b < length (heap q)" "a < length (heap q)"
  shows "removeFromQueue (msg_id (message q a)) q = q\<lparr>queue := filter (\<lambda>b. b \<noteq> a) (queue q)\<rparr>"
proof -
  have "\<forall>b \<in> set (queue q). msg_id (message q b) = msg_id (message q a) \<longleftrightarrow> b = a"
    using assms id_eq_addr by blast
  from findIndex_remove[OF assms(2), of "\<lambda>b. msg_id (message q b) = msg_id (message q a)" a, OF this]
  show ?thesis
    by (auto simp: removeFromQueue_def split: option.splits)
qed

subsection \<open>The three ways processMessage ends\<close>

lemma heap_update_message: "heap (update_message a f q) = (heap q)[a := f (heap q ! a)]"
  by (simp add: update_message_def)

lemma settle_completed:
  assumes ok: "queue_ok q" and a: "a \<in> set (inFlight q)"
  shows "processMessage_settle a (Inr u) now q =
     finally_settle a (msg_id (message q a)) (Inr ())
       (q\<lparr>heap := (heap q)[a := (message q a)\<lparr>status := Completed, processedAt := Some now\<rparr>],
          completedCount := completedCount q + 1,
          queue := filter (\<lambda>b. b \<noteq> a) (queue q)\<rparr>)"
proof -
  from ok a have len: "a < length (heap q)" by (auto simp: queue_ok_def)
  let ?q3 = "(update_message a (\<lambda>m. m\<lparr>processedAt := Some now\<rparr>)
               (update_message a (\<lambda>m. m\<lparr>status := Completed\<rparr>) q))
             \<lparr>completedCount := completedCount q + 1\<rparr>"
  have ids: "map msg_id (heap ?q3) = map msg_id (heap q)"
    by (simp add: ids_update)
  have m3: "message ?q3 a = (message q a)\<lparr>status := Completed, processedAt := Some now\<rparr>"
    using len by (simp add: message_def heap_update_message)
  have h3: "heap ?q3 = (heap q)[a := (message q a)\<lparr>status := Completed, processedAt := Some now\<rparr>]"
    using len by (simp add: message_def heap_update_message)
  have "removeFromQueue (msg_id (message ?q3 a)) ?q3 = ?q3\<lparr>queue := filter (\<lambda>b. b \<noteq> a) (queue ?q3)\<rparr>"
    by (rule removeFromQueue_eq) (use ok len ids in \<open>auto simp: queue_ok_def\<close>)
  then show ?thesis
    using m3 h3 len
    by (simp add: processMessage_settle_def Let_def finally_settle_def update_message_def
          message_def)
qed

lemma settle_dead:
  assumes ok: "queue_ok q" and a: "a \<in> set (inFlight q)"
    and r: "maxRetries (message q a) \<le> retryCount (message q a) + 1"
  shows "processMessage_settle a (Inl err) now q =
     finally_settle a (msg_id (message q a)) (Inr ())
       (q\<lparr>heap := (heap q)[a := (message q a)\<lparr>retryCount := retryCount (message q a) + 1,
                                               status := DeadLetter\<rparr>],
          deadLetter := deadLetter q @ [a],
          queue := filter (\<lambda>b. b \<noteq> a) (queue q),
          failedCount := failedCount q + 1\<rparr>)"
proof -
  from ok a have len: "a < length (heap q)" by (auto simp: queue_ok_def)
  let ?q1 = "update_message a (\<lambda>m. m\<lparr>retryCount := retryCount m + 1\<rparr>) q"
  let ?q3 = "(update_message a (\<lambda>m. m\<lparr>status := DeadLetter\<rparr>) ?q1)
             \<lparr>deadLetter := deadLetter q @ [a]\<rparr>"
  have m1: "message ?q1 a = (message q a)\<lparr>retryCount := retryCount (message q a) + 1\<rparr>"
    using len by (simp add: message_def heap_update_message)
  have ids: "map msg_id (heap ?q3) = map msg_id (heap q)"
    by (simp add: ids_update)
  have m3: "message ?q3 a = (message q a)\<lparr>retryCount := retryCount (message q a) + 1,
                                               status := DeadLetter\<rparr>"
    using len by (simp add: message_def heap_update_message)
  have h3: "heap ?q3 = (heap q)[a := (message q a)\<lparr>retryCount := retryCount (message q a) + 1,
                                               status := DeadLetter\<rparr>]"
    using len by (simp add: message_def heap_update_message)
  have "removeFromQueue (msg_id (message ?q3 a)) ?q3 = ?q3\<lparr>queue := filter (\<lambda>b. b \<noteq> a) (queue ?q3)\<rparr>"
    by (rule removeFromQueue_eq) (use ok len ids in \<open>auto simp: queue_ok_def\<close>)
  then show ?thesis
    using m1 m3 h3 len r
    by (simp add: processMessage_settle_def Let_def finally_settle_def update_message_def
          message_def)
qed

lemma settle_retry:
  assumes ok: "queue_ok q" and a: "a \<in> set (inFlight q)"
    and r: "retryCount (message q a) + 1 < maxRetries (message q a)"
  shows "processMessage_settle a (Inl err) now q =
     (if now + retryDelay (options q) * 2 ^ (retryCount (message q a) + 1) \<le> maxDate
      then finally_settle a (msg_id (message q a)) (Inr ())
             (q\<lparr>heap := (heap q)[a := (message q a)
                     \<lparr>retryCount := retryCount (message q a) + 1, status := Pending,
                      scheduledAt := Some (now + retryDelay (options q)
                                                   * 2 ^ (retryCount (message q a) + 1))\<rparr>]\<rparr>)
      else finally_settle a (msg_id (message q a)) (Inl (Error ''Invalid time value''))
             (q\<lparr>heap := (heap q)[a := (message q a)
                     \<lparr>retryCount := retryCount (message q a) + 1, status := Pending\<rparr>]\<rparr>))"
proof -
  from ok a have len: "a < length (heap q)" by (auto simp: queue_ok_def)
  let ?q1 = "update_message a (\<lambda>m. m\<lparr>retryCount := retryCount m + 1\<rparr>) q"
  have m1: "message ?q1 a = (message q a)\<lparr>retryCount := retryCount (message q a) + 1\<rparr>"
    using len by (simp add: message_def heap_update_message)
  show ?thesis
    using m1 len r
    by (simp add: processMessage_settle_def Let_def finally_settle_def update_message_def
          message_def toISOString_def)
qed

subsection \<open>The invariant\<close>

lemma queue_ok_core:
  "heap q' = heap q \<Longrightarrow> queue q' = queue q \<Longrightarrow> deadLetter q' = deadLetter q \<Longrightarrow>
   inFlight q' = inFlight q \<Longrightarrow> options q' = options q \<Longrightarrow> queue_ok q' = queue_ok q"
  by (simp add: queue_ok_def message_def)

lemma finally_settle_fields [simp]:
  "heap (finally_settle a i r q) = heap q"
  "queue (finally_settle a i r q) = queue q"
  "deadLetter (finally_settle a i r q) = deadLetter q"
  "inFlight (finally_settle a i r q) = filter (\<lambda>b. b \<noteq> a) (inFlight q)"
  "options (finally_settle a i r q) = options q"
  "processing (finally_settle a i r q) = set_delete i (processing q)"
  "completedCount (finally_settle a i r q) = completedCount q"
  "failedCount (finally_settle a i r q) = failedCount q"
  "isProcessing (finally_settle a i r q) = isProcessing q"
  by (simp_all add: finally_settle_def)

lemma set_update_subset: "m \<in> set (xs[a := v]) \<Longrightarrow> m = v \<or> m \<in> set xs"
  using set_update_subset_insert[of xs a v] by auto

lemma map_update_same: "a < length xs \<Longrightarrow> (map f xs)[a := f (xs ! a)] = map f xs"
  by (simp add: list_update_same_conv)

lemma settle_ok:
  assumes ok: "queue_ok q" and a: "a \<in> set (inFlight q)"
  shows "queue_ok (processMessage_settle a outcome now q)"
proof -
  from ok a have len: "a < length (heap q)" by (auto simp: queue_ok_def)
  from ok a have rc: "retryCount (message q a) < maxRetries (message q a)"
    by (auto simp: queue_ok_def)
  from ok len have mr: "0 < maxRetries (message q a)" by (auto simp: queue_ok_def message_def)
  show ?thesis
  proof (cases outcome)
    case (Inr u)
    show ?thesis
      unfolding Inr settle_completed[OF ok a]
      using ok len mr a
      by (auto simp: queue_ok_def message_def nth_list_update map_update map_update_same
            dest!: set_update_subset)
  next
    case (Inl err)
    show ?thesis
    proof (cases "maxRetries (message q a) \<le> retryCount (message q a) + 1")
      case True
      with rc have eq: "retryCount (message q a) + 1 = maxRetries (message q a)" by simp
      show ?thesis
        unfolding Inl settle_dead[OF ok a True]
        using ok len mr eq a
        by (auto simp: queue_ok_def message_def nth_list_update map_update map_update_same
              dest!: set_update_subset)
    next
      case False
      then have r: "retryCount (message q a) + 1 < maxRetries (message q a)" by simp
      show ?thesis
        unfolding Inl settle_retry[OF ok a r]
        using ok len mr r a
        by (auto simp: queue_ok_def message_def nth_list_update map_update map_update_same
              dest!: set_update_subset)
    qed
  qed
qed

subsection \<open>Dispatch\<close>

lemma begin_eq:
  "processMessage_begin a q =
     q\<lparr>processing := set_add (msg_id (message q a)) (processing q),
       heap := (heap q)[a := (message q a)\<lparr>status := Processing\<rparr>],
       inFlight := inFlight q @ [a]\<rparr>"
  by (simp add: processMessage_begin_def Let_def update_message_def message_def)

lemma begin_ok:
  assumes ok: "queue_ok q" and r: "ready q a"
  shows "queue_ok (processMessage_begin a q)"
proof -
  from ok r have len: "a < length (heap q)" by (auto simp: queue_ok_def ready_def)
  from ok r have nf: "a \<notin> set (inFlight q)" "a \<notin> set (deadLetter q)"
    by (auto simp: queue_ok_def ready_def)
  show ?thesis
    unfolding begin_eq
    using ok len nf r
    by (auto simp: queue_ok_def ready_def message_def nth_list_update map_update map_update_same
          dest!: set_update_subset)
qed

lemma begin_ready:
  assumes ok: "queue_ok q" and a: "ready q a" and b: "ready q b" and ne: "b \<noteq> a"
  shows "ready (processMessage_begin a q) b"
proof -
  from ok a b have len: "a < length (heap q)" "b < length (heap q)"
    by (auto simp: queue_ok_def ready_def)
  from ok have "distinct (map msg_id (heap q))" by (simp add: queue_ok_def)
  from id_eq_addr[OF this len] ne have "msg_id (message q b) \<noteq> msg_id (message q a)" by simp
  with b ne len show ?thesis
    unfolding begin_eq by (auto simp: ready_def message_def set_add_def)
qed

lemma begin_flow:
  assumes ok: "queue_ok q" and fl: "flow_ok q" and r: "ready q a"
  shows "flow_ok (processMessage_begin a q)"
proof -
  from ok r have len: "a < length (heap q)" by (auto simp: queue_ok_def ready_def)
  from ok r have nf: "a \<notin> set (inFlight q)" by (auto simp: queue_ok_def ready_def)
  have "map (\<lambda>b. msg_id ((heap q)[a := (heap q ! a)\<lparr>status := Processing\<rparr>] ! b)) (inFlight q)
          = map (\<lambda>b. msg_id (heap q ! b)) (inFlight q)"
  proof (rule map_cong[OF refl])
    fix x assume "x \<in> set (inFlight q)"
    with nf have "a \<noteq> x" by auto
    then show "msg_id ((heap q)[a := (heap q ! a)\<lparr>status := Processing\<rparr>] ! x) = msg_id (heap q ! x)"
      by simp
  qed
  with fl r len nf show ?thesis
    unfolding begin_eq
    by (auto simp: flow_ok_def ready_def message_def set_add_def nth_list_update)
qed

lemma begin_fields [simp]:
  "queue (processMessage_begin a q) = queue q"
  "deadLetter (processMessage_begin a q) = deadLetter q"
  "completedCount (processMessage_begin a q) = completedCount q"
  "failedCount (processMessage_begin a q) = failedCount q"
  "options (processMessage_begin a q) = options q"
  "isProcessing (processMessage_begin a q) = isProcessing q"
  "loops (processMessage_begin a q) = loops q"
  "length (heap (processMessage_begin a q)) = length (heap q)"
  "inFlight (processMessage_begin a q) = inFlight q @ [a]"
  by (simp_all add: begin_eq)

lemma dispatch_Cons: "dispatch (a # rs) q = dispatch rs (processMessage_begin a q)"
  by (simp add: dispatch_def)

lemma dispatch_fields_all:
  "queue (dispatch rs q) = queue q
   \<and> deadLetter (dispatch rs q) = deadLetter q
   \<and> completedCount (dispatch rs q) = completedCount q
   \<and> failedCount (dispatch rs q) = failedCount q
   \<and> options (dispatch rs q) = options q
   \<and> isProcessing (dispatch rs q) = isProcessing q
   \<and> loops (dispatch rs q) = loops q
   \<and> length (heap (dispatch rs q)) = length (heap q)
   \<and> inFlight (dispatch rs q) = inFlight q @ rs"
proof (induction rs arbitrary: q)
  case Nil
  show ?case by (simp add: dispatch_def)
next
  case (Cons a rs)
  show ?case unfolding dispatch_Cons using Cons.IH[of "processMessage_begin a q"] by simp
qed

lemmas dispatch_fields [simp] =
  dispatch_fields_all[THEN conjunct1]
  dispatch_fields_all[THEN conjunct2, THEN conjunct1]
  dispatch_fields_all[THEN conjunct2, THEN conjunct2, THEN conjunct1]
  dispatch_fields_all[THEN conjunct2, THEN conjunct2, THEN conjunct2, THEN conjunct1]
  dispatch_fields_all[THEN conjunct2, THEN conjunct2, THEN conjunct2, THEN conjunct2, THEN conjunct1]
  dispatch_fields_all[THEN conjunct2, THEN conjunct2, THEN conjunct2, THEN conjunct2, THEN conjunct2,
    THEN conjunct1]
  dispatch_fields_all[THEN conjunct2, THEN conjunct2, THEN conjunct2, THEN conjunct2, THEN conjunct2,
    THEN conjunct2, THEN conjunct1]
  dispatch_fields_all[THEN conjunct2, THEN conjunct2, THEN conjunct2, THEN conjunct2, THEN conjunct2,
    THEN conjunct2, THEN conjunct2, THEN conjunct1]
  dispatch_fields_all[THEN conjunct2, THEN conjunct2, THEN conjunct2, THEN conjunct2, THEN conjunct2,
    THEN conjunct2, THEN conjunct2, THEN conjunct2]

lemma dispatch_ok:
  "queue_ok q \<Longrightarrow> distinct rs \<Longrightarrow> \<forall>a \<in> set rs. ready q a \<Longrightarrow>
   queue_ok (dispatch rs q) \<and> (flow_ok q \<longrightarrow> flow_ok (dispatch rs q))"
proof (induction rs arbitrary: q)
  case Nil
  then show ?case by (simp add: dispatch_def)
next
  case (Cons a rs)
  have ok1: "queue_ok (processMessage_begin a q)" using Cons.prems by (simp add: begin_ok)
  have r1: "\<forall>b \<in> set rs. ready (processMessage_begin a q) b"
  proof
    fix b assume b: "b \<in> set rs"
    with Cons.prems have "ready q a" "ready q b" "b \<noteq> a" by auto
    with Cons.prems(1) show "ready (processMessage_begin a q) b" by (rule begin_ready)
  qed
  have d: "distinct rs" using Cons.prems by simp
  have fl: "flow_ok q \<Longrightarrow> flow_ok (processMessage_begin a q)"
    using Cons.prems by (simp add: begin_flow)
  from Cons.IH[OF ok1 d r1] fl show ?case by (simp add: dispatch_Cons)
qed

lemma begin_message:
  "message (processMessage_begin a q) b
     = (if b = a \<and> a < length (heap q) then (message q a)\<lparr>status := Processing\<rparr>
        else message q b)"
  by (cases "a < length (heap q)")
     (auto simp: begin_eq message_def list_update_beyond not_less)

lemma dispatch_message:
  "message (dispatch rs q) b
     = (if b \<in> set rs \<and> b < length (heap q) then (message q b)\<lparr>status := Processing\<rparr>
        else message q b)"
proof (induction rs arbitrary: q)
  case Nil
  show ?case by (simp add: dispatch_def)
next
  case (Cons a rs)
  show ?case
    unfolding dispatch_Cons Cons.IH
    by (auto simp: begin_message)
qed

subsection \<open>The processing loop\<close>

lemma core_fields [simp]:
  "heap (core q) = heap q" "queue (core q) = queue q" "processing (core q) = processing q"
  "deadLetter (core q) = deadLetter q" "completedCount (core q) = completedCount q"
  "failedCount (core q) = failedCount q" "options (core q) = options q"
  "inFlight (core q) = inFlight q"
  by (simp_all add: core_def)

lemma core_eq_fields:
  "core q' = core q \<Longrightarrow>
     heap q' = heap q \<and> queue q' = queue q \<and> processing q' = processing q
     \<and> deadLetter q' = deadLetter q \<and> completedCount q' = completedCount q
     \<and> failedCount q' = failedCount q \<and> options q' = options q \<and> inFlight q' = inFlight q"
proof -
  assume c: "core q' = core q"
  have "heap (core q') = heap (core q)" "queue (core q') = queue (core q)"
    "processing (core q') = processing (core q)" "deadLetter (core q') = deadLetter (core q)"
    "completedCount (core q') = completedCount (core q)"
    "failedCount (core q') = failedCount (core q)" "options (core q') = options (core q)"
    "inFlight (core q') = inFlight (core q)"
    by (simp_all only: c)
  then show ?thesis by simp
qed

lemma core_queue_ok: "core q' = core q \<Longrightarrow> queue_ok q' = queue_ok q"
  using core_eq_fields[of q' q] by (intro queue_ok_core) simp_all

lemma core_flow_ok: "core q' = core q \<Longrightarrow> flow_ok q' = flow_ok q"
  using core_eq_fields[of q' q] by (simp add: flow_ok_def message_def)

lemma core_ready: "core q' = core q \<Longrightarrow> ready q' a = ready q a"
  using core_eq_fields[of q' q] by (simp add: ready_def message_def)

lemma core_idem [simp]: "core (core q) = core q"
  by (simp add: core_def)

lemma core_update [simp]:
  "core (q\<lparr>isProcessing := b\<rparr>) = core q" "core (q\<lparr>loops := l\<rparr>) = core q"
  by (simp_all add: core_def)

lemma core_begin: "core (processMessage_begin a q) = processMessage_begin a (core q)"
  by (simp add: begin_eq core_def message_def)

lemma core_dispatch: "core (dispatch rs q) = dispatch rs (core q)"
  by (induction rs arbitrary: q) (simp_all add: dispatch_def core_begin)

lemma isReady_ready: "isReady q now a \<Longrightarrow> a \<in> set (queue q) \<Longrightarrow> ready q a"
  by (simp add: isReady_def ready_def Let_def)

lemma loopIteration_core:
  assumes d: "distinct (queue q)"
  shows "\<exists>rs. core (loopIteration now i q) = dispatch rs (core q)
            \<and> distinct rs \<and> (\<forall>a \<in> set rs. ready q a)"
proof -
  let ?rs = "take (nat (int (maxConcurrent (options q)) - int (length (processing q))))
               (filter (isReady q now) (queue q))"
  have rs: "distinct ?rs" "\<forall>a \<in> set ?rs. ready q a"
    using d by (auto dest!: in_set_takeD intro: isReady_ready)
  have e: "dispatch [] (core q) = core q" by (simp add: dispatch_def)
  have "core (loopIteration now i q) = dispatch [] (core q)
        \<or> core (loopIteration now i q) = dispatch ?rs (core q)"
    unfolding e by (simp add: loopIteration_def Let_def dispatch_def[symmetric] core_dispatch)
  then show ?thesis
  proof
    assume "core (loopIteration now i q) = dispatch [] (core q)"
    then show ?thesis by (intro exI[of _ "[]"]) simp
  next
    assume "core (loopIteration now i q) = dispatch ?rs (core q)"
    with rs show ?thesis by (intro exI[of _ ?rs]) simp
  qed
qed

lemma startProcessing_core:
  assumes d: "distinct (queue q)"
  shows "\<exists>rs. core (startProcessing now q) = dispatch rs (core q)
            \<and> distinct rs \<and> (\<forall>a \<in> set rs. ready q a)"
proof (cases "isProcessing q")
  case True
  then have "core (startProcessing now q) = dispatch [] (core q)"
    by (simp add: startProcessing_def dispatch_def)
  then show ?thesis by (intro exI[of _ "[]"]) simp
next
  case False
  let ?q0 = "q\<lparr>isProcessing := True, loops := loops q @ [Returned]\<rparr>"
  have c: "core ?q0 = core q" by simp
  from loopIteration_core[of ?q0 now "length (loops q)"] d obtain rs where
    rs: "core (loopIteration now (length (loops q)) ?q0) = dispatch rs (core ?q0)"
        "distinct rs" "\<forall>a \<in> set rs. ready ?q0 a" by auto
  have "\<forall>a \<in> set rs. ready q a" using rs(3) core_ready[OF c] by simp
  with rs False show ?thesis
    by (intro exI[of _ rs]) (simp add: startProcessing_def)
qed

lemma started_ok:
  assumes c: "core q' = dispatch rs (core q)" and d: "distinct rs"
    and r: "\<forall>a \<in> set rs. ready q a" and ok: "queue_ok q"
  shows "queue_ok q' \<and> (flow_ok q \<longrightarrow> flow_ok q')"
proof -
  have c1: "core q' = core (dispatch rs q)" using c by (simp add: core_dispatch)
  from dispatch_ok[OF ok d r] show ?thesis
    using core_queue_ok[OF c1] core_flow_ok[OF c1] by simp
qed

lemma loopIteration_ok:
  "queue_ok q \<Longrightarrow> queue_ok (loopIteration now i q)
                   \<and> (flow_ok q \<longrightarrow> flow_ok (loopIteration now i q))"
proof -
  assume ok: "queue_ok q"
  then have "distinct (queue q)" by (simp add: queue_ok_def)
  from loopIteration_core[OF this, of now i] obtain rs where
    "core (loopIteration now i q) = dispatch rs (core q)" "distinct rs" "\<forall>a \<in> set rs. ready q a"
    by blast
  then show ?thesis using ok by (rule started_ok)
qed

lemma startProcessing_ok:
  "queue_ok q \<Longrightarrow> queue_ok (startProcessing now q)
                   \<and> (flow_ok q \<longrightarrow> flow_ok (startProcessing now q))"
proof -
  assume ok: "queue_ok q"
  then have "distinct (queue q)" by (simp add: queue_ok_def)
  from startProcessing_core[OF this, of now] obtain rs where
    "core (startProcessing now q) = dispatch rs (core q)" "distinct rs" "\<forall>a \<in> set rs. ready q a"
    by blast
  then show ?thesis using ok by (rule started_ok)
qed

subsection \<open>Enqueue and retryDeadLetter\<close>

lemma enqueue_eq:
  assumes "\<forall>b \<in> set (queue q). b < length (heap q)"
  shows "snd (enqueue gen now ev prio sched q)
           = (if isProcessing q then inserted gen ev prio sched q
              else startProcessing now (inserted gen ev prio sched q))"
    and "fst (enqueue gen now ev prio sched q) = gen"
proof -
  let ?msg = "\<lparr>msg_id = gen, msg_event = ev, priority = prio, retryCount = 0,
                maxRetries = opt_maxRetries (options q), scheduledAt = sched,
                processedAt = None, status = Pending\<rparr>"
  let ?q1 = "q\<lparr>heap := heap q @ [?msg]\<rparr>"
  have same: "\<And>b. b \<in> set (queue q) \<Longrightarrow> message ?q1 b = message q b"
    using assms by (simp add: message_def nth_append)
  have tw: "takeWhile (\<lambda>b. \<not> priority (message ?q1 b) < prio) (queue q)
              = takeWhile (\<lambda>b. \<not> priority (message q b) < prio) (queue q)"
    by (rule takeWhile_cong) (simp_all add: same)
  have dw: "dropWhile (\<lambda>b. \<not> priority (message ?q1 b) < prio) (queue q)
              = dropWhile (\<lambda>b. \<not> priority (message q b) < prio) (queue q)"
    by (rule dropWhile_cong) (simp_all add: same)
  have ins: "(case findIndex (\<lambda>m. priority (message ?q1 m) < prio) (queue q) of
                None \<Rightarrow> ?q1\<lparr>queue := queue q @ [length (heap q)]\<rparr>
              | Some i \<Rightarrow> ?q1\<lparr>queue := splice_insert i (length (heap q)) (queue q)\<rparr>)
             = inserted gen ev prio sched q"
    using findIndex_takeWhile[where P = "\<lambda>m. priority (message ?q1 m) < prio"
            and xs = "queue q" and x = "length (heap q)"]
    unfolding tw dw
    by (auto simp: inserted_def split: option.splits)
  have ins': "(case findIndex (\<lambda>m. priority (message ?q1 m) < prio) (queue ?q1) of
                None \<Rightarrow> ?q1\<lparr>queue := queue ?q1 @ [length (heap q)]\<rparr>
              | Some i \<Rightarrow> ?q1\<lparr>queue := splice_insert i (length (heap q)) (queue ?q1)\<rparr>)
             = inserted gen ev prio sched q"
  proof -
    have qq: "queue ?q1 = queue q" by simp
    show ?thesis unfolding qq by (rule ins)
  qed
  have ip: "isProcessing (inserted gen ev prio sched q) = isProcessing q"
    by (simp add: inserted_def)
  show "snd (enqueue gen now ev prio sched q)
           = (if isProcessing q then inserted gen ev prio sched q
              else startProcessing now (inserted gen ev prio sched q))"
    unfolding enqueue_def Let_def ins' by (simp add: ip)
  show "fst (enqueue gen now ev prio sched q) = gen"
    by (simp add: enqueue_def Let_def)
qed

lemma inserted_fields:
  "heap (inserted gen ev prio sched q)
     = heap q @ [\<lparr>msg_id = gen, msg_event = ev, priority = prio, retryCount = 0,
                   maxRetries = opt_maxRetries (options q), scheduledAt = sched,
                   processedAt = None, status = Pending\<rparr>]"
  "set (queue (inserted gen ev prio sched q)) = insert (length (heap q)) (set (queue q))"
  "length (queue (inserted gen ev prio sched q)) = Suc (length (queue q))"
  "deadLetter (inserted gen ev prio sched q) = deadLetter q"
  "inFlight (inserted gen ev prio sched q) = inFlight q"
  "processing (inserted gen ev prio sched q) = processing q"
  "options (inserted gen ev prio sched q) = options q"
  "completedCount (inserted gen ev prio sched q) = completedCount q"
  "failedCount (inserted gen ev prio sched q) = failedCount q"
proof -
  let ?P = "\<lambda>b. \<not> priority (message q b) < prio"
  have "set (takeWhile ?P (queue q)) \<union> set (dropWhile ?P (queue q)) = set (queue q)"
    by (metis set_append takeWhile_dropWhile_id)
  then show "set (queue (inserted gen ev prio sched q)) = insert (length (heap q)) (set (queue q))"
    by (auto simp: inserted_def)
  have "length (takeWhile ?P (queue q)) + length (dropWhile ?P (queue q)) = length (queue q)"
    by (metis length_append takeWhile_dropWhile_id)
  then show "length (queue (inserted gen ev prio sched q)) = Suc (length (queue q))"
    by (simp add: inserted_def)
qed (simp_all add: inserted_def)

lemma inserted_message:
  "a < length (heap q) \<Longrightarrow> message (inserted gen ev prio sched q) a = message q a"
  "message (inserted gen ev prio sched q) (length (heap q))
     = \<lparr>msg_id = gen, msg_event = ev, priority = prio, retryCount = 0,
        maxRetries = opt_maxRetries (options q), scheduledAt = sched,
        processedAt = None, status = Pending\<rparr>"
  by (simp_all add: message_def inserted_fields(1) nth_append)

lemma insert_distinct:
  assumes "distinct xs" "n \<notin> set xs"
  shows "distinct (takeWhile P xs @ [n] @ dropWhile P xs)"
proof -
  have "distinct (takeWhile P xs @ dropWhile P xs)" using assms(1) by simp
  then have "distinct (takeWhile P xs)" "distinct (dropWhile P xs)"
    "set (takeWhile P xs) \<inter> set (dropWhile P xs) = {}"
    unfolding distinct_append by blast+
  moreover have "n \<notin> set (takeWhile P xs)" "n \<notin> set (dropWhile P xs)"
    using assms(2) by (auto dest: set_takeWhileD set_dropWhileD)
  ultimately show ?thesis by auto
qed

lemma inserted_distinct:
  assumes "distinct (queue q)" "length (heap q) \<notin> set (queue q)"
  shows "distinct (queue (inserted gen ev prio sched q))"
  using insert_distinct[OF assms] by (simp add: inserted_def)

lemma inserted_ok:
  assumes ok: "queue_ok q" and fresh: "gen \<notin> msg_id ` set (heap q)"
  shows "queue_ok (inserted gen ev prio sched q)"
    and "flow_ok q \<Longrightarrow> flow_ok (inserted gen ev prio sched q)"
proof -
  let ?q' = "inserted gen ev prio sched q"
  have lt: "\<forall>a \<in> set (queue q). a < length (heap q)" "\<forall>a \<in> set (deadLetter q). a < length (heap q)"
    "\<forall>a \<in> set (inFlight q). a < length (heap q)"
    using ok by (auto simp: queue_ok_def)
  then have nin: "length (heap q) \<notin> set (queue q)" "length (heap q) \<notin> set (deadLetter q)"
    "length (heap q) \<notin> set (inFlight q)" by auto
  note f = inserted_fields[of gen ev prio sched q]
  note m = inserted_message
  have dq: "distinct (queue ?q')" using ok nin by (intro inserted_distinct) (simp_all add: queue_ok_def)
  have c1: "distinct (map msg_id (heap ?q'))" using ok fresh by (simp add: f queue_ok_def)
  have c2: "\<forall>a \<in> set (queue ?q') \<union> set (deadLetter ?q') \<union> set (inFlight ?q'). a < length (heap ?q')"
    using lt by (auto simp: f)
  have c3: "\<forall>a \<in> set (deadLetter ?q'). a \<notin> set (queue ?q') \<and> a \<notin> set (inFlight ?q')"
    using ok nin by (auto simp: f queue_ok_def)
  have c4: "\<forall>a \<in> set (inFlight ?q'). status (message ?q' a) = Processing"
    using ok lt by (auto simp: f m queue_ok_def)
  have c5: "\<forall>a \<in> set (queue ?q') \<union> set (inFlight ?q').
              retryCount (message ?q' a) < maxRetries (message ?q' a)"
    using ok lt by (auto simp: f m queue_ok_def)
  have c6: "\<forall>a \<in> set (deadLetter ?q').
              status (message ?q' a) = DeadLetter
              \<and> retryCount (message ?q' a) = maxRetries (message ?q' a)"
    using ok lt by (auto simp: f m queue_ok_def)
  have c7: "\<forall>m \<in> set (heap ?q'). 0 < maxRetries m" "0 < opt_maxRetries (options ?q')"
    using ok by (auto simp: f queue_ok_def)
  show "queue_ok ?q'"
    unfolding queue_ok_def using dq c1 c2 c3 c4 c5 c6 c7 ok by (simp add: f(4,5) queue_ok_def)
  show "flow_ok ?q'" if fl: "flow_ok q"
  proof -
    have "map (\<lambda>a. msg_id (message ?q' a)) (inFlight q) = map (\<lambda>a. msg_id (message q a)) (inFlight q)"
      using lt by (simp add: m)
    with fl lt show ?thesis
      by (auto simp: flow_ok_def f m)
  qed
qed

lemma enqueue_ok:
  assumes ok: "queue_ok q" and fresh: "gen \<notin> msg_id ` set (heap q)"
  shows "queue_ok (snd (enqueue gen now ev prio sched q))
         \<and> (flow_ok q \<longrightarrow> flow_ok (snd (enqueue gen now ev prio sched q)))"
proof -
  have lt: "\<forall>b \<in> set (queue q). b < length (heap q)" using ok by (simp add: queue_ok_def)
  note i = inserted_ok[OF ok fresh, of ev prio sched]
  show ?thesis
    unfolding enqueue_eq(1)[OF lt]
    using i startProcessing_ok[OF i(1), of now] by auto
qed

lemma retryDeadLetter_eq:
  assumes ok: "queue_ok q"
  shows "retryDeadLetter messageId now q =
     (case findIndex (\<lambda>a. msg_id (message q a) = messageId) (deadLetter q) of
        None \<Rightarrow> (False, q)
      | Some index \<Rightarrow>
          (True, if isProcessing q then revived (deadLetter q ! index) q
                 else startProcessing now (revived (deadLetter q ! index) q)))"
proof (cases "findIndex (\<lambda>a. msg_id (message q a) = messageId) (deadLetter q)")
  case None
  then show ?thesis by (simp add: retryDeadLetter_def)
next
  case (Some index)
  let ?a = "deadLetter q ! index"
  from findIndex_Some[OF Some] have ix: "index < length (deadLetter q)"
    and idm: "msg_id (message q ?a) = messageId" by auto
  then have mem: "?a \<in> set (deadLetter q)" by simp
  with ok have len: "?a < length (heap q)" by (auto simp: queue_ok_def)
  have d: "distinct (deadLetter q)" using ok by (simp add: queue_ok_def)
  have "\<forall>b \<in> set (deadLetter q). msg_id (message q b) = messageId \<longleftrightarrow> b = ?a"
    using ok len idm id_eq_addr[of q ?a] by (auto simp: queue_ok_def)
  from findIndex_remove[OF d this] Some
  have rm: "splice_remove index (deadLetter q) = filter (\<lambda>b. b \<noteq> ?a) (deadLetter q)" by simp
  show ?thesis
    using Some rm len
    by (simp add: retryDeadLetter_def Let_def revived_def update_message_def message_def)
qed

lemma revived_ok:
  assumes ok: "queue_ok q" and a: "a \<in> set (deadLetter q)"
  shows "queue_ok (revived a q)" and "flow_ok q \<Longrightarrow> flow_ok (revived a q)"
proof -
  from ok a have len: "a < length (heap q)" and nq: "a \<notin> set (queue q)" "a \<notin> set (inFlight q)"
    by (auto simp: queue_ok_def)
  from ok len have mr: "0 < maxRetries (message q a)" by (auto simp: queue_ok_def message_def)
  show "queue_ok (revived a q)"
    using ok len nq mr a
    by (auto simp: queue_ok_def revived_def message_def nth_list_update map_update map_update_same
          dest!: set_update_subset)
  show "flow_ok (revived a q)" if fl: "flow_ok q"
  proof -
    have "map (\<lambda>b. msg_id ((heap q)[a := m] ! b)) (inFlight q) = map (\<lambda>b. msg_id (heap q ! b)) (inFlight q)"
      for m
    proof (rule map_cong[OF refl])
      fix x assume "x \<in> set (inFlight q)"
      with nq have "a \<noteq> x" by auto
      then show "msg_id ((heap q)[a := m] ! x) = msg_id (heap q ! x)" by simp
    qed
    with fl len nq show ?thesis
      by (auto simp: flow_ok_def revived_def message_def nth_list_update)
  qed
qed

lemma retryDeadLetter_ok:
  assumes ok: "queue_ok q"
  shows "queue_ok (snd (retryDeadLetter messageId now q))
         \<and> (flow_ok q \<longrightarrow> flow_ok (snd (retryDeadLetter messageId now q)))"
proof (cases "findIndex (\<lambda>a. msg_id (message q a) = messageId) (deadLetter q)")
  case None
  then show ?thesis using ok by (simp add: retryDeadLetter_eq[OF ok])
next
  case (Some index)
  from findIndex_Some[OF Some] have mem: "deadLetter q ! index \<in> set (deadLetter q)" by simp
  note r = revived_ok[OF ok mem]
  show ?thesis
    using Some r startProcessing_ok[OF r(1), of now]
    by (auto simp: retryDeadLetter_eq[OF ok])
qed

subsection \<open>Steps and runs\<close>

lemma set_delete_ids:
  assumes "distinct (map msg_id (heap q))" "a < length (heap q)" "\<forall>b \<in> set xs. b < length (heap q)"
  shows "set_delete (msg_id (message q a)) (map (\<lambda>b. msg_id (message q b)) xs)
           = map (\<lambda>b. msg_id (message q b)) (filter (\<lambda>b. b \<noteq> a) xs)"
proof -
  have "filter ((\<lambda>y. y \<noteq> msg_id (message q a)) \<circ> (\<lambda>b. msg_id (message q b))) xs
          = filter (\<lambda>b. b \<noteq> a) xs"
    using assms id_eq_addr[OF assms(1,2)] by (intro filter_cong) auto
  then show ?thesis by (simp add: set_delete_def filter_map)
qed

lemma settle_flow:
  assumes ok: "queue_ok q" and fl: "flow_ok q" and a: "a \<in> set (inFlight q)"
  shows "flow_ok (processMessage_settle a outcome now q)"
proof -
  from ok a have len: "a < length (heap q)" by (auto simp: queue_ok_def)
  from ok have lt: "\<forall>b \<in> set (inFlight q). b < length (heap q)" by (auto simp: queue_ok_def)
  from ok have ids: "distinct (map msg_id (heap q))" by (simp add: queue_ok_def)
  have pr: "set_delete (msg_id (message q a)) (processing q)
              = map (\<lambda>b. msg_id (message q b)) (filter (\<lambda>b. b \<noteq> a) (inFlight q))"
    using fl set_delete_ids[OF ids len lt] by (simp add: flow_ok_def)
  have upd: "map (\<lambda>b. msg_id ((heap q)[a := m] ! b)) (filter (\<lambda>b. b \<noteq> a) (inFlight q))
               = map (\<lambda>b. msg_id (heap q ! b)) (filter (\<lambda>b. b \<noteq> a) (inFlight q))" for m
    by (rule map_cong[OF refl]) auto
  have rc: "retryCount (message q a) < maxRetries (message q a)"
    using ok a by (auto simp: queue_ok_def)
  show ?thesis
  proof (cases outcome)
    case (Inr u)
    show ?thesis
      unfolding Inr settle_completed[OF ok a]
      using fl pr upd by (auto simp: flow_ok_def message_def nth_list_update)
  next
    case (Inl err)
    show ?thesis
    proof (cases "maxRetries (message q a) \<le> retryCount (message q a) + 1")
      case True
      show ?thesis
        unfolding Inl settle_dead[OF ok a True]
        using fl pr upd by (auto simp: flow_ok_def message_def nth_list_update)
    next
      case False
      then have r: "retryCount (message q a) + 1 < maxRetries (message q a)" by simp
      show ?thesis
        unfolding Inl settle_retry[OF ok a r]
        using fl pr upd len by (auto simp: flow_ok_def message_def nth_list_update)
    qed
  qed
qed

lemma new_ok: "queue_ok (newEventQueue opts)" "flow_ok (newEventQueue opts)"
  by (auto simp: queue_ok_def flow_ok_def newEventQueue_def orDefault_def split: option.splits)

lemma step_ok:
  assumes ok: "queue_ok q" and st: "step act q = Some q'"
  shows "queue_ok q' \<and> (flow_ok q \<and> \<not> isClear act \<longrightarrow> flow_ok q')"
proof (cases act)
  case (Enqueue gen now ev prio sched)
  with st have "gen \<notin> msg_id ` set (heap q)" "q' = snd (enqueue gen now ev prio sched q)"
    by (auto split: if_splits)
  with enqueue_ok[OF ok this(1), of now ev prio sched] show ?thesis by simp
next
  case (Schedule gen now ev delayMs prio)
  with st have "gen \<notin> msg_id ` set (heap q)"
    "q' = snd (enqueue gen now ev prio (Some (now + delayMs)) q)"
    by (auto simp: schedule_def toISOString_def split: if_splits prod.splits)
  with enqueue_ok[OF ok this(1), of now ev prio "Some (now + delayMs)"] show ?thesis by simp
next
  case (RetryDeadLetter messageId now)
  with st retryDeadLetter_ok[OF ok, of messageId now] show ?thesis by auto
next
  case ClearDeadLetter
  with st ok show ?thesis
    by (auto simp: clearDeadLetter_def queue_ok_def flow_ok_def message_def)
next
  case Pause
  with st ok show ?thesis
    by (auto simp: pause_def queue_ok_def flow_ok_def message_def)
next
  case (Resume now)
  with st ok startProcessing_ok[OF ok, of now] show ?thesis
    by (auto simp: resume_def)
next
  case Clear
  with st ok show ?thesis
    by (auto simp: clear_def queue_ok_def message_def)
next
  case (Wake i now)
  with st loopIteration_ok[OF ok, of now i] show ?thesis by (auto split: if_splits)
next
  case (Settle a outcome now)
  with st have a: "a \<in> set (inFlight q)" "q' = processMessage_settle a outcome now q"
    by (auto split: if_splits)
  with settle_ok[OF ok a(1), of outcome now] settle_flow[OF ok _ a(1), of outcome now]
  show ?thesis by auto
qed

lemma run_ok:
  "queue_ok q \<Longrightarrow> run acts q = Some q' \<Longrightarrow>
   queue_ok q' \<and> (flow_ok q \<and> \<not> list_ex isClear acts \<longrightarrow> flow_ok q')"
proof (induction acts arbitrary: q)
  case Nil
  then show ?case by simp
next
  case (Cons act acts)
  from Cons.prems obtain q1 where q1: "step act q = Some q1" "run acts q1 = Some q'"
    by (auto split: option.splits)
  from step_ok[OF Cons.prems(1) q1(1)] Cons.IH[OF _ q1(2)] show ?case by auto
qed

subsection \<open>What a step does to a message\<close>

lemma started_fields:
  assumes c: "core q' = dispatch rs (core q)"
  shows "queue q' = queue q" "deadLetter q' = deadLetter q" "completedCount q' = completedCount q"
    "failedCount q' = failedCount q" "options q' = options q"
    "length (heap q') = length (heap q)" "inFlight q' = inFlight q @ rs"
    "message q' b = (if b \<in> set rs \<and> b < length (heap q)
                     then (message q b)\<lparr>status := Processing\<rparr> else message q b)"
proof -
  have h: "heap q' = heap (dispatch rs (core q))" using arg_cong[OF c, of heap] by simp
  show "queue q' = queue q" using arg_cong[OF c, of queue] by simp
  show "deadLetter q' = deadLetter q" using arg_cong[OF c, of deadLetter] by simp
  show "completedCount q' = completedCount q" using arg_cong[OF c, of completedCount] by simp
  show "failedCount q' = failedCount q" using arg_cong[OF c, of failedCount] by simp
  show "options q' = options q" using arg_cong[OF c, of options] by simp
  show "length (heap q') = length (heap q)" using h by simp
  show "inFlight q' = inFlight q @ rs" using arg_cong[OF c, of inFlight] by simp
  have "message q' b = message (dispatch rs (core q)) b" using h by (simp add: message_def)
  also have "\<dots> = (if b \<in> set rs \<and> b < length (heap q)
                     then (message q b)\<lparr>status := Processing\<rparr> else message q b)"
    using dispatch_message[of rs "core q" b] by (simp add: message_def)
  finally show "message q' b = (if b \<in> set rs \<and> b < length (heap q)
                     then (message q b)\<lparr>status := Processing\<rparr> else message q b)" .
qed

lemma same_but_status_refl [simp]: "same_but_status m m"
  by (simp add: same_but_status_def)

lemma same_but_status_trans:
  "same_but_status m2 m1 \<Longrightarrow> same_but_status m1 m \<Longrightarrow>
   status m1 = status m \<or> status m2 = status m1 \<Longrightarrow> same_but_status m2 m"
  by (auto simp: same_but_status_def)

lemma started_same:
  assumes c: "core q' = dispatch rs (core q)" and r: "\<forall>a \<in> set rs. ready q a"
  shows "same_but_status (message q' b) (message q b)"
  using r by (auto simp: started_fields(8)[OF c] same_but_status_def ready_def)

lemma startProcessing_same:
  assumes ok: "queue_ok q"
  shows "same_but_status (message (startProcessing now q) b) (message q b)"
    "queue (startProcessing now q) = queue q"
    "deadLetter (startProcessing now q) = deadLetter q"
    "completedCount (startProcessing now q) = completedCount q"
    "failedCount (startProcessing now q) = failedCount q"
    "length (heap (startProcessing now q)) = length (heap q)"
proof -
  from ok have "distinct (queue q)" by (simp add: queue_ok_def)
  from startProcessing_core[OF this, of now] obtain rs where
    rs: "core (startProcessing now q) = dispatch rs (core q)" "\<forall>a \<in> set rs. ready q a" by blast
  show "same_but_status (message (startProcessing now q) b) (message q b)"
    by (rule started_same[OF rs])
  show "queue (startProcessing now q) = queue q" "deadLetter (startProcessing now q) = deadLetter q"
    "completedCount (startProcessing now q) = completedCount q"
    "failedCount (startProcessing now q) = failedCount q"
    "length (heap (startProcessing now q)) = length (heap q)"
    using started_fields[OF rs(1)] by simp_all
qed

lemma loopIteration_same:
  assumes ok: "queue_ok q"
  shows "same_but_status (message (loopIteration now i q) b) (message q b)"
    "queue (loopIteration now i q) = queue q"
    "deadLetter (loopIteration now i q) = deadLetter q"
    "completedCount (loopIteration now i q) = completedCount q"
    "failedCount (loopIteration now i q) = failedCount q"
    "length (heap (loopIteration now i q)) = length (heap q)"
proof -
  from ok have "distinct (queue q)" by (simp add: queue_ok_def)
  from loopIteration_core[OF this, of now i] obtain rs where
    rs: "core (loopIteration now i q) = dispatch rs (core q)" "\<forall>a \<in> set rs. ready q a" by blast
  show "same_but_status (message (loopIteration now i q) b) (message q b)"
    by (rule started_same[OF rs])
  show "queue (loopIteration now i q) = queue q" "deadLetter (loopIteration now i q) = deadLetter q"
    "completedCount (loopIteration now i q) = completedCount q"
    "failedCount (loopIteration now i q) = failedCount q"
    "length (heap (loopIteration now i q)) = length (heap q)"
    using started_fields[OF rs(1)] by simp_all
qed

lemma settle_fields:
  assumes ok: "queue_ok q" and a: "a \<in> set (inFlight q)"
  shows "length (heap (processMessage_settle a outcome now q)) = length (heap q)"
    and "message (processMessage_settle a outcome now q) b
           = (if b = a then settled_message outcome now (retryDelay (options q)) (message q a)
              else message q b)"
    and "queue (processMessage_settle a outcome now q)
           = (if isl outcome \<and> retryCount (message q a) + 1 < maxRetries (message q a)
              then queue q else filter (\<lambda>b. b \<noteq> a) (queue q))"
    and "deadLetter (processMessage_settle a outcome now q)
           = (if isl outcome \<and> maxRetries (message q a) \<le> retryCount (message q a) + 1
              then deadLetter q @ [a] else deadLetter q)"
    and "completedCount (processMessage_settle a outcome now q)
           = completedCount q + (if isl outcome then 0 else 1)"
    and "failedCount (processMessage_settle a outcome now q)
           = failedCount q + (if isl outcome \<and> maxRetries (message q a) \<le> retryCount (message q a) + 1
                              then 1 else 0)"
    and "inFlight (processMessage_settle a outcome now q) = filter (\<lambda>b. b \<noteq> a) (inFlight q)"
    and "options (processMessage_settle a outcome now q) = options q"
proof -
  from ok a have len: "a < length (heap q)" by (auto simp: queue_ok_def)
  have all: "length (heap (processMessage_settle a outcome now q)) = length (heap q)
    \<and> message (processMessage_settle a outcome now q) b
           = (if b = a then settled_message outcome now (retryDelay (options q)) (message q a)
              else message q b)
    \<and> queue (processMessage_settle a outcome now q)
           = (if isl outcome \<and> retryCount (message q a) + 1 < maxRetries (message q a)
              then queue q else filter (\<lambda>b. b \<noteq> a) (queue q))
    \<and> deadLetter (processMessage_settle a outcome now q)
           = (if isl outcome \<and> maxRetries (message q a) \<le> retryCount (message q a) + 1
              then deadLetter q @ [a] else deadLetter q)
    \<and> completedCount (processMessage_settle a outcome now q)
           = completedCount q + (if isl outcome then 0 else 1)
    \<and> failedCount (processMessage_settle a outcome now q)
           = failedCount q + (if isl outcome \<and> maxRetries (message q a) \<le> retryCount (message q a) + 1
                              then 1 else 0)
    \<and> inFlight (processMessage_settle a outcome now q) = filter (\<lambda>b. b \<noteq> a) (inFlight q)
    \<and> options (processMessage_settle a outcome now q) = options q"
  proof (cases outcome)
    case (Inr u)
    show ?thesis
      unfolding Inr settle_completed[OF ok a]
      using len by (simp add: settled_message_def message_def nth_list_update)
  next
    case (Inl err)
    show ?thesis
    proof (cases "maxRetries (message q a) \<le> retryCount (message q a) + 1")
      case True
      show ?thesis
        unfolding Inl settle_dead[OF ok a True]
        using len True by (simp add: settled_message_def message_def nth_list_update)
    next
      case False
      then have r: "retryCount (message q a) + 1 < maxRetries (message q a)" by simp
      show ?thesis
        unfolding Inl settle_retry[OF ok a r]
        using len r by (simp add: settled_message_def message_def nth_list_update)
    qed
  qed
  show "length (heap (processMessage_settle a outcome now q)) = length (heap q)"
    and "message (processMessage_settle a outcome now q) b
           = (if b = a then settled_message outcome now (retryDelay (options q)) (message q a)
              else message q b)"
    and "queue (processMessage_settle a outcome now q)
           = (if isl outcome \<and> retryCount (message q a) + 1 < maxRetries (message q a)
              then queue q else filter (\<lambda>b. b \<noteq> a) (queue q))"
    and "deadLetter (processMessage_settle a outcome now q)
           = (if isl outcome \<and> maxRetries (message q a) \<le> retryCount (message q a) + 1
              then deadLetter q @ [a] else deadLetter q)"
    and "completedCount (processMessage_settle a outcome now q)
           = completedCount q + (if isl outcome then 0 else 1)"
    and "failedCount (processMessage_settle a outcome now q)
           = failedCount q + (if isl outcome \<and> maxRetries (message q a) \<le> retryCount (message q a) + 1
                              then 1 else 0)"
    and "inFlight (processMessage_settle a outcome now q) = filter (\<lambda>b. b \<noteq> a) (inFlight q)"
    and "options (processMessage_settle a outcome now q) = options q"
    using all by blast+
qed

lemma revived_message:
  "message (revived a q) b
     = (if b = a \<and> a < length (heap q) then (message q a)\<lparr>status := Pending, retryCount := 0\<rparr>
        else message q b)"
  by (cases "a < length (heap q)")
     (auto simp: revived_def message_def list_update_beyond not_less)

lemma revived_fields [simp]:
  "length (heap (revived a q)) = length (heap q)"
  "queue (revived a q) = queue q @ [a]"
  "deadLetter (revived a q) = filter (\<lambda>b. b \<noteq> a) (deadLetter q)"
  "completedCount (revived a q) = completedCount q"
  "failedCount (revived a q) = failedCount q"
  "inFlight (revived a q) = inFlight q"
  "isProcessing (revived a q) = isProcessing q"
  "options (revived a q) = options q"
  by (simp_all add: revived_def)

lemma enqueue_fields:
  assumes ok: "queue_ok q" and fresh: "gen \<notin> msg_id ` set (heap q)"
  shows "length (heap (snd (enqueue gen now ev prio sched q))) = Suc (length (heap q))"
    and "queue (snd (enqueue gen now ev prio sched q)) = queue (inserted gen ev prio sched q)"
    and "completedCount (snd (enqueue gen now ev prio sched q)) = completedCount q"
    and "failedCount (snd (enqueue gen now ev prio sched q)) = failedCount q"
    and "b < length (heap q) \<Longrightarrow>
           same_but_status (message (snd (enqueue gen now ev prio sched q)) b) (message q b)"
proof -
  have lt: "\<forall>b \<in> set (queue q). b < length (heap q)" using ok by (simp add: queue_ok_def)
  let ?i = "inserted gen ev prio sched q"
  have oki: "queue_ok ?i" by (rule inserted_ok(1)[OF ok fresh])
  note sp = startProcessing_same[OF oki, of now]
  show "length (heap (snd (enqueue gen now ev prio sched q))) = Suc (length (heap q))"
    unfolding enqueue_eq(1)[OF lt] using sp(6) by (auto simp: inserted_fields(1))
  show "queue (snd (enqueue gen now ev prio sched q)) = queue ?i"
    unfolding enqueue_eq(1)[OF lt] using sp(2) by auto
  show "completedCount (snd (enqueue gen now ev prio sched q)) = completedCount q"
    unfolding enqueue_eq(1)[OF lt] using sp(4) by (auto simp: inserted_fields)
  show "failedCount (snd (enqueue gen now ev prio sched q)) = failedCount q"
    unfolding enqueue_eq(1)[OF lt] using sp(5) by (auto simp: inserted_fields)
  show "same_but_status (message (snd (enqueue gen now ev prio sched q)) b) (message q b)"
    if b: "b < length (heap q)"
  proof -
    have mi: "message ?i b = message q b" using b by (rule inserted_message(1))
    show ?thesis unfolding enqueue_eq(1)[OF lt] using sp(1)[of b] mi by auto
  qed
qed

lemma step_message:
  assumes ok: "queue_ok q" and st: "step act q = Some q'" and b: "b < length (heap q)"
  shows "length (heap q) \<le> length (heap q')"
    and "msg_id (message q' b) = msg_id (message q b)"
    and "priority (message q' b) = priority (message q b)"
    and "maxRetries (message q' b) = maxRetries (message q b)"
    and "status (message q b) = Completed \<Longrightarrow> status (message q' b) = Completed"
    and "\<not> isRetryDeadLetter act \<Longrightarrow>
           retryCount (message q' b) = retryCount (message q b) + (if failsOn b act then 1 else 0)"
proof -
  have all: "length (heap q) \<le> length (heap q')
    \<and> msg_id (message q' b) = msg_id (message q b)
    \<and> priority (message q' b) = priority (message q b)
    \<and> maxRetries (message q' b) = maxRetries (message q b)
    \<and> (status (message q b) = Completed \<longrightarrow> status (message q' b) = Completed)
    \<and> (\<not> isRetryDeadLetter act \<longrightarrow>
           retryCount (message q' b) = retryCount (message q b) + (if failsOn b act then 1 else 0))"
  proof (cases act)
    case (Enqueue gen now ev prio sched)
    with st have f: "gen \<notin> msg_id ` set (heap q)" and q': "q' = snd (enqueue gen now ev prio sched q)"
      by (auto split: if_splits)
    from enqueue_fields(1)[OF ok f, of now ev prio sched]
      enqueue_fields(5)[OF ok f b, of now ev prio sched] show ?thesis
      unfolding q' Enqueue by (simp add: same_but_status_def)
  next
    case (Schedule gen now ev delayMs prio)
    with st have f: "gen \<notin> msg_id ` set (heap q)"
      and q': "q' = snd (enqueue gen now ev prio (Some (now + delayMs)) q)"
      by (auto simp: schedule_def toISOString_def split: if_splits prod.splits)
    from enqueue_fields(1)[OF ok f, of now ev prio "Some (now + delayMs)"]
      enqueue_fields(5)[OF ok f b, of now ev prio "Some (now + delayMs)"] show ?thesis
      unfolding q' Schedule by (simp add: same_but_status_def)
  next
    case (RetryDeadLetter messageId now)
    show ?thesis
    proof (cases "findIndex (\<lambda>a. msg_id (message q a) = messageId) (deadLetter q)")
      case None
      with st RetryDeadLetter show ?thesis by (simp add: retryDeadLetter_eq[OF ok])
    next
      case (Some index)
      let ?a = "deadLetter q ! index"
      from findIndex_Some[OF Some] have mem: "?a \<in> set (deadLetter q)" by simp
      with ok have sa: "status (message q ?a) = DeadLetter" by (auto simp: queue_ok_def)
      note r = revived_ok(1)[OF ok mem]
      note sp = startProcessing_same[OF r, of now]
      have q': "q' = revived ?a q \<or> q' = startProcessing now (revived ?a q)"
        using st RetryDeadLetter Some by (auto simp: retryDeadLetter_eq[OF ok])
      have "same_but_status (message q' b) (message (revived ?a q) b)
            \<and> length (heap q') = length (heap q)"
        using q' sp(1,6) by auto
      then show ?thesis
        using sa RetryDeadLetter by (auto simp: same_but_status_def revived_message)
    qed
  next
    case ClearDeadLetter
    with st show ?thesis by (auto simp: clearDeadLetter_def message_def)
  next
    case Pause
    with st show ?thesis by (auto simp: pause_def message_def)
  next
    case (Resume now)
    with st startProcessing_same(1)[OF ok, of now b] startProcessing_same(6)[OF ok, of now] show ?thesis
      by (auto simp: resume_def same_but_status_def)
  next
    case Clear
    with st show ?thesis by (auto simp: clear_def message_def)
  next
    case (Wake i now)
    with st loopIteration_same(1)[OF ok, of now i b] loopIteration_same(6)[OF ok, of now i] show ?thesis
      by (auto simp: same_but_status_def split: if_splits)
  next
    case (Settle a outcome now)
    with st have a: "a \<in> set (inFlight q)" and q': "q' = processMessage_settle a outcome now q"
      by (auto split: if_splits)
    from ok a have sa: "status (message q a) = Processing" by (auto simp: queue_ok_def)
    show ?thesis
      unfolding q' Settle settle_fields(1,2)[OF ok a]
      using sa by (cases outcome) (auto simp: settled_message_def)
  qed
  show "length (heap q) \<le> length (heap q')"
    and "msg_id (message q' b) = msg_id (message q b)"
    and "priority (message q' b) = priority (message q b)"
    and "maxRetries (message q' b) = maxRetries (message q b)"
    and "status (message q b) = Completed \<Longrightarrow> status (message q' b) = Completed"
    and "\<not> isRetryDeadLetter act \<Longrightarrow>
           retryCount (message q' b) = retryCount (message q b) + (if failsOn b act then 1 else 0)"
    using all by blast+
qed

lemma enqueue_new:
  assumes ok: "queue_ok q" and fresh: "gen \<notin> msg_id ` set (heap q)"
  shows "same_but_status (message (snd (enqueue gen now ev prio sched q)) (length (heap q)))
           \<lparr>msg_id = gen, msg_event = ev, priority = prio, retryCount = 0,
            maxRetries = opt_maxRetries (options q), scheduledAt = sched,
            processedAt = None, status = Pending\<rparr>"
proof -
  have lt: "\<forall>b \<in> set (queue q). b < length (heap q)" using ok by (simp add: queue_ok_def)
  let ?i = "inserted gen ev prio sched q"
  have oki: "queue_ok ?i" by (rule inserted_ok(1)[OF ok fresh])
  note sp = startProcessing_same(1)[OF oki, of now "length (heap q)"]
  show ?thesis
    unfolding enqueue_eq(1)[OF lt] using sp by (auto simp: inserted_message(2))
qed

lemma ok_inFlight_lt: "queue_ok q \<Longrightarrow> a \<in> set (inFlight q) \<Longrightarrow> a < length (heap q)"
  unfolding queue_ok_def by blast

lemma step_new:
  assumes ok: "queue_ok q" and st: "step act q = Some q'"
    and b: "length (heap q) \<le> b"
  shows "\<not> failsOn b act" "\<not> succeedsOn b act"
    "b < length (heap q') \<Longrightarrow> retryCount (message q' b) = 0 \<and> status (message q' b) \<noteq> Completed"
proof -
  have nf: "b \<notin> set (inFlight q)" using ok_inFlight_lt[OF ok, of b] b by auto
  show "\<not> failsOn b act"
    using st nf by (cases "(b, act)" rule: failsOn.cases) (auto split: if_splits)
  show "\<not> succeedsOn b act"
    using st nf by (cases "(b, act)" rule: succeedsOn.cases) (auto split: if_splits)
  show "retryCount (message q' b) = 0 \<and> status (message q' b) \<noteq> Completed" if lt: "b < length (heap q')"
  proof (cases act)
    case (Enqueue gen now ev prio sched)
    with st have f: "gen \<notin> msg_id ` set (heap q)" and q': "q' = snd (enqueue gen now ev prio sched q)"
      by (auto split: if_splits)
    from enqueue_fields(1)[OF ok f, of now ev prio sched] lt b q'
    have "b = length (heap q)" by simp
    with enqueue_new[OF ok f, of now ev prio sched] q' show ?thesis
      by (auto simp: same_but_status_def)
  next
    case (Schedule gen now ev delayMs prio)
    with st have f: "gen \<notin> msg_id ` set (heap q)"
      and q': "q' = snd (enqueue gen now ev prio (Some (now + delayMs)) q)"
      by (auto simp: schedule_def toISOString_def split: if_splits prod.splits)
    from enqueue_fields(1)[OF ok f, of now ev prio "Some (now + delayMs)"] lt b q'
    have "b = length (heap q)" by simp
    with enqueue_new[OF ok f, of now ev prio "Some (now + delayMs)"] q' show ?thesis
      by (auto simp: same_but_status_def)
  next
    case (RetryDeadLetter messageId now)
    have "length (heap q') = length (heap q)"
    proof (cases "findIndex (\<lambda>a. msg_id (message q a) = messageId) (deadLetter q)")
      case None
      with st RetryDeadLetter show ?thesis by (simp add: retryDeadLetter_eq[OF ok])
    next
      case (Some index)
      from findIndex_Some[OF Some] have mem: "deadLetter q ! index \<in> set (deadLetter q)" by simp
      note sp = startProcessing_same(6)[OF revived_ok(1)[OF ok mem], of now]
      show ?thesis using st RetryDeadLetter Some sp by (auto simp: retryDeadLetter_eq[OF ok])
    qed
    with lt b show ?thesis by simp
  next
    case ClearDeadLetter
    with st lt b show ?thesis by (auto simp: clearDeadLetter_def)
  next
    case Pause
    with st lt b show ?thesis by (auto simp: pause_def)
  next
    case (Resume now)
    with st startProcessing_same(6)[OF ok, of now] have "length (heap q') = length (heap q)"
      by (auto simp: resume_def split: if_splits)
    with lt b show ?thesis by simp
  next
    case Clear
    with st lt b show ?thesis by (auto simp: clear_def)
  next
    case (Wake i now)
    with st loopIteration_same(6)[OF ok, of now i] have "length (heap q') = length (heap q)"
      by (auto split: if_splits)
    with lt b show ?thesis by simp
  next
    case (Settle a outcome now)
    with st have a: "a \<in> set (inFlight q)" and q': "q' = processMessage_settle a outcome now q"
      by (auto split: if_splits)
    from settle_fields(1)[OF ok a, of outcome now] q' lt b show ?thesis by simp
  qed
qed


lemma run_retryCount:
  "queue_ok q \<Longrightarrow> run acts q = Some q' \<Longrightarrow> \<not> list_ex isRetryDeadLetter acts \<Longrightarrow>
   b < length (heap q') \<Longrightarrow>
   retryCount (message q' b)
     = (if b < length (heap q) then retryCount (message q b) else 0)
       + length (filter (failsOn b) acts)"
proof (induction acts arbitrary: q)
  case Nil
  then show ?case by simp
next
  case (Cons act acts)
  from Cons.prems obtain q1 where q1: "step act q = Some q1" "run acts q1 = Some q'"
    by (auto split: option.splits)
  have ok1: "queue_ok q1" using step_ok[OF Cons.prems(1) q1(1)] by simp
  have nr: "\<not> isRetryDeadLetter act" "\<not> list_ex isRetryDeadLetter acts" using Cons.prems(3) by auto
  note ih = Cons.IH[OF ok1 q1(2) nr(2) Cons.prems(4)]
  show ?case
  proof (cases "b < length (heap q)")
    case True
    from step_message(1)[OF Cons.prems(1) q1(1) True] True have "b < length (heap q1)" by simp
    with ih step_message(6)[OF Cons.prems(1) q1(1) True nr(1)] True show ?thesis by simp
  next
    case False
    then have ge: "length (heap q) \<le> b" by simp
    note n = step_new[OF Cons.prems(1) q1(1) ge]
    show ?thesis
    proof (cases "b < length (heap q1)")
      case True
      with ih n False show ?thesis by simp
    next
      case F2: False
      with ih n False show ?thesis by simp
    qed
  qed
qed



section \<open>The queue: retries, dead letters, counters and order\<close>

lemma reachable_ok:
  "run acts (newEventQueue opts) = Some q \<Longrightarrow>
   queue_ok q \<and> (\<not> list_ex isClear acts \<longrightarrow> flow_ok q)"
  using run_ok[OF new_ok(1), of acts opts q] new_ok(2)[of opts] by simp

text \<open>
  Claim C3. In every state a run reaches, when an attempt on a message fails and the
  incremented \<open>retryCount\<close> reaches \<open>maxRetries\<close>, the message gets status \<^verbatim>\<open>dead_letter\<close>, is
  appended to the dead-letter list, is in the pending list no more, and the failed counter
  grows by exactly 1 (the completed counter does not move). With \<open>maxRetries = 3\<close> this is
  the third failed attempt.
\<close>

theorem dead_letter_when_retries_exhausted:
  assumes r: "run acts (newEventQueue opts) = Some q"
    and a: "a \<in> set (inFlight q)"
    and x: "maxRetries (message q a) \<le> retryCount (message q a) + 1"
  shows "\<exists>q'. step (Settle a (Inl err) now) q = Some q'
           \<and> status (message q' a) = DeadLetter
           \<and> retryCount (message q' a) = retryCount (message q a) + 1
           \<and> retryCount (message q' a) = maxRetries (message q' a)
           \<and> deadLetter q' = deadLetter q @ [a]
           \<and> a \<notin> set (queue q') \<and> a \<notin> set (inFlight q')
           \<and> failedCount q' = failedCount q + 1
           \<and> completedCount q' = completedCount q"
proof -
  from reachable_ok[OF r] have ok: "queue_ok q" by simp
  from ok a have rc: "retryCount (message q a) < maxRetries (message q a)"
    by (auto simp: queue_ok_def)
  note f = settle_fields[OF ok a, of "Inl err" now]
  show ?thesis
    using a x rc by (simp add: f settled_message_def)
qed


text \<open>What a step does to the \<open>retryCount\<close> of a message.\<close>

lemma step_retryCount:
  assumes ok: "queue_ok q" and st: "step act q = Some q'" and b: "b < length (heap q)"
  shows "retryCount (message q' b)
           = (if revivesMessage act q b then 0
              else retryCount (message q b) + (if failsOn b act then 1 else 0))"
proof (cases "isRetryDeadLetter act")
  case False
  then have "\<not> revivesMessage act q b" by (cases act) auto
  with step_message(6)[OF ok st b False] show ?thesis by simp
next
  case True
  then obtain i now where act: "act = RetryDeadLetter i now" by (cases act) auto
  show ?thesis
  proof (cases "findIndex (\<lambda>a. msg_id (message q a) = i) (deadLetter q)")
    case None
    then have nr: "\<not> revivesMessage act q b" by (auto simp: act findIndex_None)
    have "q' = q" using st act None by (simp add: retryDeadLetter_eq[OF ok])
    moreover have "\<not> failsOn b act" by (simp add: act)
    ultimately show ?thesis using nr by simp
  next
    case (Some index)
    let ?a = "deadLetter q ! index"
    from findIndex_Some[OF Some] have mem: "?a \<in> set (deadLetter q)"
      and idm: "msg_id (message q ?a) = i" by simp_all
    from ok mem have len: "?a < length (heap q)" unfolding queue_ok_def by blast
    from ok have di: "distinct (map msg_id (heap q))" by (simp add: queue_ok_def)
    have rv: "revivesMessage act q b \<longleftrightarrow> b = ?a"
      using id_eq_addr[OF di len b] mem idm by (auto simp: act)
    note ro = revived_ok(1)[OF ok mem]
    note sp = startProcessing_same[OF ro, of now]
    have q': "q' = revived ?a q \<or> q' = startProcessing now (revived ?a q)"
      using st act Some by (auto simp: retryDeadLetter_eq[OF ok])
    have m: "same_but_status (message q' b) (message (revived ?a q) b)"
      using q' sp(1)[of b] by auto
    then have "retryCount (message q' b) = retryCount (message (revived ?a q) b)"
      by (simp add: same_but_status_def)
    then show ?thesis using rv len by (simp add: revived_message act)
  qed
qed





text \<open>
  Claim C6 (as amended). Along every run, a step changes the \<open>retryCount\<close> of a message in
  two cases only: the failed end of an attempt on the message adds 1, and a call of
  \<^verbatim>\<open>retryDeadLetter\<close> that finds the message in the dead-letter list sets it to 0. So no
  operation other than the message's own \<^verbatim>\<open>retryDeadLetter\<close> lowers it. A message in the
  pending list or in flight has \<open>retryCount < maxRetries\<close>, a dead-lettered one has
  \<open>retryCount = maxRetries\<close>. \<^verbatim>\<open>retryDeadLetter\<close> takes the message out of the dead-letter
  list and puts it into the pending list with \<open>retryCount\<close> reset from \<open>maxRetries\<close> to 0 and
  status \<^verbatim>\<open>pending\<close>; when the call finds the queue idle it starts the loop, and the message
  is \<^verbatim>\<open>processing\<close> when the call returns if the loop has dispatched it.
\<close>

theorem retryCount_bounded_reset_by_retryDeadLetter:
  assumes r: "run acts (newEventQueue opts) = Some q" and st: "step act q = Some q'"
  shows "(\<forall>b < length (heap q).
            retryCount (message q' b)
              = (if revivesMessage act q b then 0
                 else retryCount (message q b) + (if failsOn b act then 1 else 0)))
       \<and> (\<forall>b < length (heap q). maxRetries (message q' b) = maxRetries (message q b))
       \<and> (\<forall>b \<in> set (queue q') \<union> set (inFlight q').
            retryCount (message q' b) < maxRetries (message q' b))
       \<and> (\<forall>b \<in> set (deadLetter q').
            status (message q' b) = DeadLetter
            \<and> retryCount (message q' b) = maxRetries (message q' b))
       \<and> (\<forall>i now. act = RetryDeadLetter i now \<longrightarrow>
            (case findIndex (\<lambda>a. msg_id (message q a) = i) (deadLetter q) of
               None \<Rightarrow> q' = q
             | Some index \<Rightarrow>
                 (let a = deadLetter q ! index
                  in a \<in> set (queue q')
                     \<and> deadLetter q' = filter (\<lambda>b. b \<noteq> a) (deadLetter q)
                     \<and> msg_id (message q' a) = i
                     \<and> retryCount (message q a) = maxRetries (message q a)
                     \<and> retryCount (message q' a) = 0
                     \<and> status (message q' a)
                         = (if a \<in> set (inFlight q') then Processing else Pending)
                     \<and> (isProcessing q \<longrightarrow> a \<notin> set (inFlight q')))))"
proof -
  from reachable_ok[OF r] have ok: "queue_ok q" by simp
  from step_ok[OF ok st] have ok': "queue_ok q'" by simp
  have p1: "\<forall>b < length (heap q).
            retryCount (message q' b)
              = (if revivesMessage act q b then 0
                 else retryCount (message q b) + (if failsOn b act then 1 else 0))"
    using step_retryCount[OF ok st] by blast
  have p2: "\<forall>b < length (heap q). maxRetries (message q' b) = maxRetries (message q b)"
    using step_message(4)[OF ok st] by simp
  have p3: "\<forall>b \<in> set (queue q') \<union> set (inFlight q').
            retryCount (message q' b) < maxRetries (message q' b)"
    using ok' unfolding queue_ok_def by blast
  have p4: "\<forall>b \<in> set (deadLetter q').
            status (message q' b) = DeadLetter
            \<and> retryCount (message q' b) = maxRetries (message q' b)"
    using ok' unfolding queue_ok_def by blast
  have p5: "case findIndex (\<lambda>a. msg_id (message q a) = i) (deadLetter q) of
               None \<Rightarrow> q' = q
             | Some index \<Rightarrow>
                 (let a = deadLetter q ! index
                  in a \<in> set (queue q')
                     \<and> deadLetter q' = filter (\<lambda>b. b \<noteq> a) (deadLetter q)
                     \<and> msg_id (message q' a) = i
                     \<and> retryCount (message q a) = maxRetries (message q a)
                     \<and> retryCount (message q' a) = 0
                     \<and> status (message q' a)
                         = (if a \<in> set (inFlight q') then Processing else Pending)
                     \<and> (isProcessing q \<longrightarrow> a \<notin> set (inFlight q')))"
    if act: "act = RetryDeadLetter i now" for i now
  proof (cases "findIndex (\<lambda>a. msg_id (message q a) = i) (deadLetter q)")
    case None
    with st act show ?thesis by (simp add: retryDeadLetter_eq[OF ok])
  next
    case (Some index)
    let ?a = "deadLetter q ! index"
    let ?v = "revived ?a q"
    from findIndex_Some[OF Some] have mem: "?a \<in> set (deadLetter q)"
      and idm: "msg_id (message q ?a) = i" by simp_all
    from ok mem have len: "?a < length (heap q)"
      and dl: "retryCount (message q ?a) = maxRetries (message q ?a)"
      and nf: "?a \<notin> set (inFlight q)"
      unfolding queue_ok_def by blast+
    note rv = revived_ok(1)[OF ok mem]
    from rv have "distinct (queue ?v)" by (simp add: queue_ok_def)
    from startProcessing_core[OF this, of now] obtain rs where
      rs: "core (startProcessing now ?v) = dispatch rs (core ?v)" by blast
    note sf = started_fields[OF rs]
    have mv: "message ?v ?a = (message q ?a)\<lparr>status := Pending, retryCount := 0\<rparr>"
      using len by (simp add: revived_message)
    show ?thesis
    proof (cases "isProcessing q")
      case True
      with st act Some have q': "q' = ?v" by (simp add: retryDeadLetter_eq[OF ok])
      show ?thesis using Some idm dl nf True by (simp add: Let_def q' mv)
    next
      case False
      with st act Some have q': "q' = startProcessing now ?v"
        by (simp add: retryDeadLetter_eq[OF ok])
      have "message q' ?a = (if ?a \<in> set rs then (message ?v ?a)\<lparr>status := Processing\<rparr>
                             else message ?v ?a)"
        unfolding q' sf(8)[of ?a] using len by simp
      moreover have "inFlight q' = inFlight q @ rs" unfolding q' sf(7) by simp
      moreover have "queue q' = queue q @ [?a]"
        "deadLetter q' = filter (\<lambda>b. b \<noteq> ?a) (deadLetter q)"
        unfolding q' sf(1,2) by simp_all
      ultimately show ?thesis using Some idm dl nf False by (simp add: Let_def mv)
    qed
  qed
  show ?thesis using p1 p2 p3 p4 p5 by blast
qed

subsection \<open>Conservation\<close>

lemma length_remove_distinct:
  "distinct xs \<Longrightarrow> a \<in> set xs \<Longrightarrow> Suc (length (filter (\<lambda>b. b \<noteq> a) xs)) = length xs"
proof (induction xs)
  case Nil
  then show ?case by simp
next
  case (Cons x xs)
  show ?case
  proof (cases "x = a")
    case True
    with Cons.prems have "a \<notin> set xs" by simp
    then have "filter (\<lambda>b. b \<noteq> a) xs = xs" by (induction xs) auto
    with True show ?thesis by simp
  next
    case False
    with Cons show ?thesis by simp
  qed
qed

lemma stats_sum:
  assumes ok: "queue_ok q" and fl: "flow_ok q"
  shows "st_pending (getStats q) + st_processing (getStats q) = length (queue q)"
proof -
  have pend: "filter (\<lambda>a. status (message q a) = Pending) (queue q)
                = filter (\<lambda>a. a \<notin> set (inFlight q)) (queue q)"
    using ok fl by (intro filter_cong) (auto simp: queue_ok_def flow_ok_def)
  have "distinct (filter (\<lambda>a. a \<in> set (inFlight q)) (queue q))"
    "set (filter (\<lambda>a. a \<in> set (inFlight q)) (queue q)) = set (inFlight q)"
    using ok fl by (auto simp: queue_ok_def flow_ok_def)
  then have "length (filter (\<lambda>a. a \<in> set (inFlight q)) (queue q)) = card (set (inFlight q))"
    using distinct_card[of "filter (\<lambda>a. a \<in> set (inFlight q)) (queue q)"] by simp
  moreover have "distinct (inFlight q)" using ok by (simp add: queue_ok_def)
  ultimately have "length (filter (\<lambda>a. a \<in> set (inFlight q)) (queue q)) = length (inFlight q)"
    by (simp add: distinct_card)
  moreover have "length (processing q) = length (inFlight q)"
    using fl by (simp add: flow_ok_def)
  moreover have "length (filter (\<lambda>a. a \<in> set (inFlight q)) (queue q))
                 + length (filter (\<lambda>a. a \<notin> set (inFlight q)) (queue q)) = length (queue q)"
    using sum_length_filter_compl[of "\<lambda>a. a \<in> set (inFlight q)" "queue q"] by simp
  ultimately show ?thesis by (simp add: getStats_def pend)
qed

lemma step_count:
  assumes ok: "queue_ok q" and fl: "flow_ok q" and st: "step act q = Some q'"
    and nc: "\<not> isClear act"
  shows "length (queue q') + completedCount q' + failedCount q'
           = length (queue q) + completedCount q + failedCount q
             + (if isEnqueue act then 1 else 0) + (if revives act q then 1 else 0)"
proof (cases act)
  case (Enqueue gen now ev prio sched)
  with st have f: "gen \<notin> msg_id ` set (heap q)" and q': "q' = snd (enqueue gen now ev prio sched q)"
    by (auto split: if_splits)
  show ?thesis
    unfolding q' Enqueue using enqueue_fields(2,3,4)[OF ok f, of now ev prio sched]
    by (simp add: inserted_fields)
next
  case (Schedule gen now ev delayMs prio)
  with st have f: "gen \<notin> msg_id ` set (heap q)"
    and q': "q' = snd (enqueue gen now ev prio (Some (now + delayMs)) q)"
    by (auto simp: schedule_def toISOString_def split: if_splits prod.splits)
  show ?thesis
    unfolding q' Schedule using enqueue_fields(2,3,4)[OF ok f, of now ev prio "Some (now + delayMs)"]
    by (simp add: inserted_fields)
next
  case (RetryDeadLetter messageId now)
  show ?thesis
  proof (cases "findIndex (\<lambda>a. msg_id (message q a) = messageId) (deadLetter q)")
    case None
    then have e: "retryDeadLetter messageId now q = (False, q)"
      by (simp add: retryDeadLetter_eq[OF ok])
    with st RetryDeadLetter show ?thesis by simp
  next
    case (Some index)
    from findIndex_Some[OF Some] have mem: "deadLetter q ! index \<in> set (deadLetter q)" by simp
    note sp = startProcessing_same[OF revived_ok(1)[OF ok mem], of now]
    have e: "fst (retryDeadLetter messageId now q)"
      "snd (retryDeadLetter messageId now q) = revived (deadLetter q ! index) q
       \<or> snd (retryDeadLetter messageId now q)
           = startProcessing now (revived (deadLetter q ! index) q)"
      using Some by (simp_all add: retryDeadLetter_eq[OF ok])
    have "length (queue q') = Suc (length (queue q))" "completedCount q' = completedCount q"
      "failedCount q' = failedCount q"
      using st RetryDeadLetter e(2) sp(2,4,5) by auto
    with e(1) RetryDeadLetter show ?thesis by simp
  qed
next
  case ClearDeadLetter
  with st show ?thesis by (auto simp: clearDeadLetter_def)
next
  case Pause
  with st show ?thesis by (auto simp: pause_def)
next
  case (Resume now)
  with st startProcessing_same(2,4,5)[OF ok, of now] show ?thesis
    by (auto simp: resume_def split: if_splits)
next
  case Clear
  with nc show ?thesis by simp
next
  case (Wake i now)
  with st loopIteration_same(2,4,5)[OF ok, of now i] show ?thesis by (auto split: if_splits)
next
  case (Settle a outcome now)
  with st have a: "a \<in> set (inFlight q)" and q': "q' = processMessage_settle a outcome now q"
    by (auto split: if_splits)
  from fl a have aq: "a \<in> set (queue q)" by (auto simp: flow_ok_def)
  from ok have "distinct (queue q)" by (simp add: queue_ok_def)
  from length_remove_distinct[OF this aq] have l: "length (queue q) = Suc (length (filter (\<lambda>b. b \<noteq> a) (queue q)))"
    by simp
  from ok a have rc: "retryCount (message q a) < maxRetries (message q a)"
    unfolding queue_ok_def by blast
  show ?thesis
    unfolding q' Settle settle_fields[OF ok a]
    using l rc by (cases outcome) auto
qed

lemma run_count:
  "queue_ok q \<Longrightarrow> flow_ok q \<Longrightarrow> run acts q = Some q' \<Longrightarrow> \<not> list_ex isClear acts \<Longrightarrow>
   length (queue q') + completedCount q' + failedCount q'
     = length (queue q) + completedCount q + failedCount q
       + length (filter isEnqueue acts) + retried acts q"
proof (induction acts arbitrary: q)
  case Nil
  then show ?case by simp
next
  case (Cons act acts)
  from Cons.prems obtain q1 where q1: "step act q = Some q1" "run acts q1 = Some q'"
    by (auto split: option.splits)
  have nc: "\<not> isClear act" "\<not> list_ex isClear acts" using Cons.prems(4) by auto
  have ok1: "queue_ok q1" "flow_ok q1"
    using step_ok[OF Cons.prems(1) q1(1)] Cons.prems(2) nc(1) by auto
  from Cons.IH[OF ok1 q1(2) nc(2)] step_count[OF Cons.prems(1,2) q1(1) nc(1)] q1(1)
  show ?case by simp
qed

text \<open>
  Claim C5 (as amended). As long as \<^verbatim>\<open>clear\<close> has not been called, at every point of a run
  (between two steps, so at every quiescent point too) the pending and processing counts of
  \<^verbatim>\<open>getStats\<close> plus the completed and failed counters equal the number of calls of
  \<^verbatim>\<open>enqueue\<close> and \<^verbatim>\<open>schedule\<close> that returned plus the number of calls of \<^verbatim>\<open>retryDeadLetter\<close>
  that returned \<^verbatim>\<open>true\<close>.
\<close>

theorem conservation_counts_revivals:
  assumes r: "run acts (newEventQueue opts) = Some q" and nc: "\<not> list_ex isClear acts"
  shows "st_pending (getStats q) + st_processing (getStats q)
           + st_completed (getStats q) + st_failed (getStats q)
         = length (filter isEnqueue acts) + retried acts (newEventQueue opts)"
proof -
  from reachable_ok[OF r] nc have ok: "queue_ok q" "flow_ok q" by simp_all
  from run_count[OF new_ok r nc] stats_sum[OF ok] show ?thesis
    by (simp add: getStats_def newEventQueue_def)
qed

subsection \<open>Order of the pending list\<close>

lemma insert_sorted:
  fixes key :: "nat \<Rightarrow> int"
  defines "R \<equiv> \<lambda>x y. key y < key x \<or> (key x = key y \<and> x < y)"
  assumes s: "sorted_wrt R xs" and n: "\<forall>x \<in> set xs. x < n" and k: "key n = p"
  shows "sorted_wrt R (takeWhile (\<lambda>b. \<not> key b < p) xs @ [n] @ dropWhile (\<lambda>b. \<not> key b < p) xs)"
proof -
  let ?tw = "takeWhile (\<lambda>b. \<not> key b < p) xs"
  let ?dw = "dropWhile (\<lambda>b. \<not> key b < p) xs"
  have "sorted_wrt R (?tw @ ?dw)" using s by simp
  then have st: "sorted_wrt R ?tw" and sd: "sorted_wrt R ?dw"
    and td: "\<forall>x \<in> set ?tw. \<forall>y \<in> set ?dw. R x y"
    unfolding sorted_wrt_append by blast+
  have tn: "\<forall>x \<in> set ?tw. R x n"
  proof
    fix x assume x: "x \<in> set ?tw"
    then have "\<not> key x < p" by (rule set_takeWhileD[THEN conjunct2])
    moreover have "x < n" using x n by (auto dest: set_takeWhileD)
    ultimately show "R x n" using k by (auto simp: R_def)
  qed
  have nd: "\<forall>y \<in> set ?dw. R n y"
  proof (cases ?dw)
    case Nil
    have "set ?dw = {}" unfolding Nil by simp
    then show ?thesis by (metis empty_iff)
  next
    case (Cons d ds)
    have "\<not> (\<not> key (hd ?dw) < p)"
      by (rule hd_dropWhile) (simp add: Cons)
    then have d: "key d < p" by (simp add: Cons)
    have "\<forall>y \<in> set ds. R d y" using sd by (simp add: Cons)
    then have "\<forall>y \<in> set ds. key y < p" using d by (auto simp: R_def)
    with d k show ?thesis by (auto simp: Cons R_def)
  qed
  show ?thesis
    unfolding sorted_wrt_append using st sd td tn nd by auto
qed

lemma sorted_before_cong:
  assumes "sorted_wrt (before q) xs"
    and "\<forall>x \<in> set xs. priority (message q' x) = priority (message q x)"
  shows "sorted_wrt (before q') xs"
  using assms(1)
  by (rule sorted_wrt_mono_rel[rotated]) (use assms(2) in \<open>auto simp: before_def\<close>)

lemma step_sorted:
  assumes ok: "queue_ok q" and so: "sorted_wrt (before q) (queue q)"
    and st: "step act q = Some q'" and nr: "\<not> isRetryDeadLetter act"
  shows "sorted_wrt (before q') (queue q')"
proof -
  have lt: "\<forall>x \<in> set (queue q). x < length (heap q)" using ok unfolding queue_ok_def by blast
  have pr: "\<forall>x \<in> set (queue q). priority (message q' x) = priority (message q x)"
    using step_message(3)[OF ok st] lt by simp
  have keep: "sorted_wrt (before q') (queue q)" by (rule sorted_before_cong[OF so pr])
  have ins: "sorted_wrt (before q') (queue (inserted gen ev prio sched q))"
    if f: "gen \<notin> msg_id ` set (heap q)" and q': "q' = snd (enqueue gen now ev prio sched q)"
    for gen now ev prio sched
  proof -
    have pn: "priority (message q' (length (heap q))) = prio"
      using enqueue_new[OF ok f, of now ev prio sched] q' by (simp add: same_but_status_def)
    have tw: "takeWhile (\<lambda>b. \<not> priority (message q b) < prio) (queue q)
                = takeWhile (\<lambda>b. \<not> priority (message q' b) < prio) (queue q)"
      by (rule takeWhile_cong) (simp_all add: pr)
    have dw: "dropWhile (\<lambda>b. \<not> priority (message q b) < prio) (queue q)
                = dropWhile (\<lambda>b. \<not> priority (message q' b) < prio) (queue q)"
      by (rule dropWhile_cong) (simp_all add: pr)
    have "sorted_wrt (\<lambda>x y. priority (message q' y) < priority (message q' x)
                          \<or> (priority (message q' x) = priority (message q' y) \<and> x < y))
            (takeWhile (\<lambda>b. \<not> priority (message q' b) < prio) (queue q) @ [length (heap q)]
             @ dropWhile (\<lambda>b. \<not> priority (message q' b) < prio) (queue q))"
      by (rule insert_sorted) (use keep lt pn in \<open>simp_all add: before_def[abs_def]\<close>)
    then show ?thesis
      unfolding inserted_def tw dw by (simp add: before_def[abs_def])
  qed
  show ?thesis
  proof (cases act)
    case (Enqueue gen now ev prio sched)
    with st have f: "gen \<notin> msg_id ` set (heap q)" and q': "q' = snd (enqueue gen now ev prio sched q)"
      by (auto split: if_splits)
    from ins[OF f q'] enqueue_fields(2)[OF ok f, of now ev prio sched] q' show ?thesis by simp
  next
    case (Schedule gen now ev delayMs prio)
    with st have f: "gen \<notin> msg_id ` set (heap q)"
      and q': "q' = snd (enqueue gen now ev prio (Some (now + delayMs)) q)"
      by (auto simp: schedule_def toISOString_def split: if_splits prod.splits)
    from ins[OF f q'] enqueue_fields(2)[OF ok f, of now ev prio "Some (now + delayMs)"] q'
    show ?thesis by simp
  next
    case (RetryDeadLetter messageId now)
    with nr show ?thesis by simp
  next
    case ClearDeadLetter
    with st keep show ?thesis by (auto simp: clearDeadLetter_def)
  next
    case Pause
    with st keep show ?thesis by (auto simp: pause_def)
  next
    case (Resume now)
    with st keep startProcessing_same(2)[OF ok, of now] show ?thesis
      by (auto simp: resume_def split: if_splits)
  next
    case Clear
    with st show ?thesis by (auto simp: clear_def)
  next
    case (Wake i now)
    with st keep loopIteration_same(2)[OF ok, of now i] show ?thesis by (auto split: if_splits)
  next
    case (Settle a outcome now)
    with st have a: "a \<in> set (inFlight q)" and q': "q' = processMessage_settle a outcome now q"
      by (auto split: if_splits)
    have "queue q' = queue q \<or> queue q' = filter (\<lambda>b. b \<noteq> a) (queue q)"
      unfolding q' settle_fields(3)[OF ok a] by simp
    with keep sorted_wrt_filter[OF keep, of "\<lambda>b. b \<noteq> a"] show ?thesis by auto
  qed
qed

lemma run_sorted:
  "queue_ok q \<Longrightarrow> sorted_wrt (before q) (queue q) \<Longrightarrow> run acts q = Some q' \<Longrightarrow>
   \<not> list_ex isRetryDeadLetter acts \<Longrightarrow> sorted_wrt (before q') (queue q')"
proof (induction acts arbitrary: q)
  case Nil
  then show ?case by simp
next
  case (Cons act acts)
  from Cons.prems obtain q1 where q1: "step act q = Some q1" "run acts q1 = Some q'"
    by (auto split: option.splits)
  have nr: "\<not> isRetryDeadLetter act" "\<not> list_ex isRetryDeadLetter acts" using Cons.prems(4) by auto
  have ok1: "queue_ok q1" using step_ok[OF Cons.prems(1) q1(1)] by simp
  from Cons.IH[OF ok1 step_sorted[OF Cons.prems(1,2) q1(1) nr(1)] q1(2) nr(2)] show ?case .
qed

lemma loopIteration_dispatch:
  "core (loopIteration now i q)
     = dispatch (if isProcessing q
                 then take (maxConcurrent (options q) - length (processing q))
                        (filter (isReady q now) (queue q))
                 else [])
         (core q)"
proof -
  have n: "nat (int (maxConcurrent (options q)) - int (length (processing q)))
             = maxConcurrent (options q) - length (processing q)"
    by simp
  have e: "dispatch [] (core q) = core q" by (simp add: dispatch_def)
  show ?thesis
  proof (cases "isProcessing q \<and> length (queue q) > 0
                \<and> \<not> int (maxConcurrent (options q)) - int (length (processing q)) \<le> 0
                \<and> take (maxConcurrent (options q) - length (processing q))
                     (filter (isReady q now) (queue q)) \<noteq> []")
    case True
    then show ?thesis
      by (simp add: loopIteration_def Let_def dispatch_def[symmetric] core_dispatch n)
  next
    case False
    then have "(if isProcessing q
                then take (maxConcurrent (options q) - length (processing q))
                       (filter (isReady q now) (queue q))
                else []) = []"
      by auto
    moreover from False have "core (loopIteration now i q) = core q"
      by (auto simp: loopIteration_def Let_def n)
    ultimately show ?thesis by (simp add: e)
  qed
qed

lemma isReady_core: "core q' = core q \<Longrightarrow> isReady q' now = isReady q now"
  using core_eq_fields[of q' q] by (auto simp: isReady_def message_def Let_def fun_eq_iff)

lemma startProcessing_dispatch:
  "\<not> isProcessing q \<Longrightarrow>
   core (startProcessing now q)
     = dispatch (take (maxConcurrent (options q) - length (processing q))
                   (filter (isReady q now) (queue q)))
         (core q)"
proof -
  assume np: "\<not> isProcessing q"
  let ?q0 = "q\<lparr>isProcessing := True, loops := loops q @ [Returned]\<rparr>"
  have c: "core ?q0 = core q" by simp
  have "isReady ?q0 now = isReady q now" by (rule isReady_core[OF c])
  with loopIteration_dispatch[of now "length (loops q)" ?q0] np show ?thesis
    by (simp add: startProcessing_def)
qed

text \<open>
  Claim C1 (as amended). Along every run without \<^verbatim>\<open>retryDeadLetter\<close> the pending list is in
  priority-descending order, equal priorities in the order of their \<^verbatim>\<open>enqueue\<close> calls; in
  every reachable state \<^verbatim>\<open>enqueue\<close> puts the new message right before the first message of
  strictly lower priority. Dispatch follows the pending list: a pass of the processing
  loop starts, in the order of the list, the first \<open>availableSlots\<close> messages of it that are
  ready (pending, not in \<^verbatim>\<open>processing\<close>, not scheduled for later), and nothing when the
  queue is paused; \<^verbatim>\<open>enqueue\<close> on an idle queue runs such a pass before it returns.
\<close>

theorem pending_list_priority_order:
  assumes r: "run acts (newEventQueue opts) = Some q"
  shows "(\<not> list_ex isRetryDeadLetter acts \<longrightarrow> sorted_wrt (before q) (queue q))
       \<and> (gen \<notin> msg_id ` set (heap q) \<longrightarrow>
            (let q' = snd (enqueue gen now ev prio sched q)
             in queue q' = takeWhile (\<lambda>b. \<not> priority (message q b) < prio) (queue q)
                           @ [length (heap q)]
                           @ dropWhile (\<lambda>b. \<not> priority (message q b) < prio) (queue q)
                \<and> msg_id (message q' (length (heap q))) = gen
                \<and> priority (message q' (length (heap q))) = prio
                \<and> retryCount (message q' (length (heap q))) = 0
                \<and> inFlight q'
                    = inFlight q
                      @ (if isProcessing q then []
                         else take (maxConcurrent (options q) - length (processing q))
                                (filter (isReady (inserted gen ev prio sched q) now)
                                   (queue q')))))
       \<and> (\<forall>q'. step (Wake i now) q = Some q' \<longrightarrow>
            (let readyMessages =
                   (if isProcessing q
                    then take (maxConcurrent (options q) - length (processing q))
                           (filter (isReady q now) (queue q))
                    else [])
             in inFlight q' = inFlight q @ readyMessages
                \<and> (\<forall>b \<in> set readyMessages. status (message q' b) = Processing)
                \<and> (\<forall>b < length (heap q). b \<notin> set readyMessages \<longrightarrow> message q' b = message q b)
                \<and> (\<not> list_ex isRetryDeadLetter acts \<longrightarrow> sorted_wrt (before q) readyMessages)
                \<and> queue q' = queue q))"
proof -
  from reachable_ok[OF r] have ok: "queue_ok q" by simp
  have lt: "\<forall>b \<in> set (queue q). b < length (heap q)" using ok by (simp add: queue_ok_def)
  have p1: "sorted_wrt (before q) (queue q)" if "\<not> list_ex isRetryDeadLetter acts"
    by (rule run_sorted[OF new_ok(1) _ r that]) (simp add: newEventQueue_def)
  have p2: "let q' = snd (enqueue gen now ev prio sched q)
             in queue q' = takeWhile (\<lambda>b. \<not> priority (message q b) < prio) (queue q)
                           @ [length (heap q)]
                           @ dropWhile (\<lambda>b. \<not> priority (message q b) < prio) (queue q)
                \<and> msg_id (message q' (length (heap q))) = gen
                \<and> priority (message q' (length (heap q))) = prio
                \<and> retryCount (message q' (length (heap q))) = 0
                \<and> inFlight q'
                    = inFlight q
                      @ (if isProcessing q then []
                         else take (maxConcurrent (options q) - length (processing q))
                                (filter (isReady (inserted gen ev prio sched q) now)
                                   (queue q')))"
    if f: "gen \<notin> msg_id ` set (heap q)"
  proof -
    let ?v = "inserted gen ev prio sched q"
    let ?q' = "snd (enqueue gen now ev prio sched q)"
    note qf = enqueue_fields(2)[OF ok f, of now ev prio sched]
    have inf: "inFlight ?q'
                 = inFlight q
                   @ (if isProcessing q then []
                      else take (maxConcurrent (options q) - length (processing q))
                             (filter (isReady ?v now) (queue ?q')))"
    proof (cases "isProcessing q")
      case True
      then show ?thesis unfolding enqueue_eq(1)[OF lt] by (simp add: inserted_fields)
    next
      case False
      then have np: "\<not> isProcessing ?v" by (simp add: inserted_def)
      note sf = started_fields(7)[OF startProcessing_dispatch[OF np, of now]]
      have e: "?q' = startProcessing now ?v" using False by (simp add: enqueue_eq(1)[OF lt])
      show ?thesis unfolding qf unfolding e sf using False by (simp add: inserted_fields)
    qed
    show ?thesis
      using qf enqueue_new[OF ok f, of now ev prio sched] inf
      by (simp add: Let_def inserted_def same_but_status_def)
  qed
  have p3: "let readyMessages =
                   (if isProcessing q
                    then take (maxConcurrent (options q) - length (processing q))
                           (filter (isReady q now) (queue q))
                    else [])
             in inFlight q' = inFlight q @ readyMessages
                \<and> (\<forall>b \<in> set readyMessages. status (message q' b) = Processing)
                \<and> (\<forall>b < length (heap q). b \<notin> set readyMessages \<longrightarrow> message q' b = message q b)
                \<and> (\<not> list_ex isRetryDeadLetter acts \<longrightarrow> sorted_wrt (before q) readyMessages)
                \<and> queue q' = queue q"
    if w: "step (Wake i now) q = Some q'" for q'
  proof -
    let ?rs = "if isProcessing q
               then take (maxConcurrent (options q) - length (processing q))
                      (filter (isReady q now) (queue q))
               else []"
    from w have q': "q' = loopIteration now i q" by (auto split: if_splits)
    note sf = started_fields[OF loopIteration_dispatch[of now i q, folded q']]
    have sub: "set ?rs \<subseteq> set (queue q)" by (auto dest: in_set_takeD)
    with lt have len: "\<forall>b \<in> set ?rs. b < length (heap q)" by blast
    have a: "inFlight q' = inFlight q @ ?rs" by (rule sf(7))
    have b: "\<forall>b \<in> set ?rs. status (message q' b) = Processing"
      using len by (simp add: sf(8))
    have c: "\<forall>b < length (heap q). b \<notin> set ?rs \<longrightarrow> message q' b = message q b"
      by (simp add: sf(8))
    have d: "sorted_wrt (before q) ?rs" if "\<not> list_ex isRetryDeadLetter acts"
      using p1[OF that] by (auto intro!: sorted_wrt_take sorted_wrt_filter)
    show ?thesis using a b c d sf(1) unfolding Let_def by blast
  qed
  show ?thesis using p1 p2 p3 by blast
qed

section \<open>Sample runs of the queue\<close>

lemmas sample_defs = sampleMessage_def defaultOptions_def sampleQueue_def sampleEvent_def

lemmas queue_defs = enqueue_def schedule_def Let_def startProcessing_def loopIteration_def isReady_def
  toISOString_def maxDate_def isoLessEq_def year10000_def
  message_def processMessage_begin_def update_message_def set_add_def set_delete_def
  processMessage_settle_def removeFromQueue_def splice_remove_def splice_insert_def
  retryDeadLetter_def

lemma new_sample: "newEventQueue None = sampleQueue [] [] [] [] 0 0 False [] []"
  by (simp add: newEventQueue_def orDefault_def sample_defs)

lemma s1: "step (Enqueue ''m1'' 0 (sampleEvent ''e1'' TicketCreated) 0 None)
             (sampleQueue [] [] [] [] 0 0 False [] [])
   = Some (sampleQueue [sampleMessage ''m1'' 0 0 None None Processing] [0] [''m1''] [] 0 0 True
             [0] [AwaitBatch [0]])"
  by (simp add: sample_defs queue_defs)

lemma s2: "step (Settle 0 (Inl Thrown) 10)
             (sampleQueue [sampleMessage ''m1'' 0 0 None None Processing] [0] [''m1''] [] 0 0 True
               [0] [AwaitBatch [0]])
   = Some (sampleQueue [sampleMessage ''m1'' 0 1 (Some 2010) None Pending] [0] [] [] 0 0 True
             [] [AwaitBatch []])"
  by (simp add: sample_defs queue_defs)

lemma s3: "step (Wake 0 3000)
             (sampleQueue [sampleMessage ''m1'' 0 1 (Some 2010) None Pending] [0] [] [] 0 0 True
               [] [AwaitBatch []])
   = Some (sampleQueue [sampleMessage ''m1'' 0 1 (Some 2010) None Processing] [0] [''m1''] [] 0 0
             True [0] [AwaitBatch [0]])"
  by (simp add: sample_defs queue_defs)

lemma s4: "step (Settle 0 (Inl Thrown) 3010)
             (sampleQueue [sampleMessage ''m1'' 0 1 (Some 2010) None Processing] [0] [''m1''] [] 0 0
               True [0] [AwaitBatch [0]])
   = Some (sampleQueue [sampleMessage ''m1'' 0 2 (Some 7010) None Pending] [0] [] [] 0 0 True
             [] [AwaitBatch []])"
  by (simp add: sample_defs queue_defs)

lemma s5: "step (Wake 0 8000)
             (sampleQueue [sampleMessage ''m1'' 0 2 (Some 7010) None Pending] [0] [] [] 0 0 True
               [] [AwaitBatch []])
   = Some (sampleQueue [sampleMessage ''m1'' 0 2 (Some 7010) None Processing] [0] [''m1''] [] 0 0
             True [0] [AwaitBatch [0]])"
  by (simp add: sample_defs queue_defs)

lemma s6: "step (Settle 0 (Inl Thrown) 8010)
             (sampleQueue [sampleMessage ''m1'' 0 2 (Some 7010) None Processing] [0] [''m1''] [] 0 0
               True [0] [AwaitBatch [0]])
   = Some (sampleQueue [sampleMessage ''m1'' 0 3 (Some 7010) None DeadLetter] [] [] [0] 0 1 True
             [] [AwaitBatch []])"
  by (simp add: sample_defs queue_defs)

lemma s7: "step (RetryDeadLetter ''m1'' 9000)
             (sampleQueue [sampleMessage ''m1'' 0 3 (Some 7010) None DeadLetter] [] [] [0] 0 1 True
               [] [AwaitBatch []])
   = Some (sampleQueue [sampleMessage ''m1'' 0 0 (Some 7010) None Pending] [0] [] [] 0 1 True
             [] [AwaitBatch []])"
  by (simp add: sample_defs queue_defs)

lemma s8: "step (Wake 0 9000)
             (sampleQueue [sampleMessage ''m1'' 0 0 (Some 7010) None Pending] [0] [] [] 0 1 True
               [] [AwaitBatch []])
   = Some (sampleQueue [sampleMessage ''m1'' 0 0 (Some 7010) None Processing] [0] [''m1''] [] 0 1
             True [0] [AwaitBatch [0]])"
  by (simp add: sample_defs queue_defs)

lemma s9: "step (Settle 0 (Inr ()) 9010)
             (sampleQueue [sampleMessage ''m1'' 0 0 (Some 7010) None Processing] [0] [''m1''] [] 0 1
               True [0] [AwaitBatch [0]])
   = Some (sampleQueue [sampleMessage ''m1'' 0 0 (Some 7010) (Some 9010) Completed] [] [] [] 1 1
             True [] [AwaitBatch []])"
  by (simp add: sample_defs queue_defs)

lemma s10: "step (Wake 0 9010)
             (sampleQueue [sampleMessage ''m1'' 0 0 (Some 7010) (Some 9010) Completed] [] [] [] 1 1
               True [] [AwaitBatch []])
   = Some (sampleQueue [sampleMessage ''m1'' 0 0 (Some 7010) (Some 9010) Completed] [] [] [] 1 1
             False [] [Returned])"
  by (simp add: sample_defs queue_defs)

lemma c6: "step (Settle 0 (Inr ()) 8010)
             (sampleQueue [sampleMessage ''m1'' 0 2 (Some 7010) None Processing] [0] [''m1''] [] 0 0
               True [0] [AwaitBatch [0]])
   = Some (sampleQueue [sampleMessage ''m1'' 0 2 (Some 7010) (Some 8010) Completed] [] [] [] 1 0
             True [] [AwaitBatch []])"
  by (simp add: sample_defs queue_defs)

lemma u7: "step (Enqueue ''m2'' 8500 (sampleEvent ''e1'' TicketCreated) (- 1) (Some 99999))
             (sampleQueue [sampleMessage ''m1'' 0 3 (Some 7010) None DeadLetter] [] [] [0] 0 1 True
               [] [AwaitBatch []])
   = Some (sampleQueue [sampleMessage ''m1'' 0 3 (Some 7010) None DeadLetter,
                        sampleMessage ''m2'' (- 1) 0 (Some 99999) None Pending] [1] [] [0] 0 1 True
             [] [AwaitBatch []])"
  by (simp add: sample_defs queue_defs)

lemma u8: "step (RetryDeadLetter ''m1'' 9000)
             (sampleQueue [sampleMessage ''m1'' 0 3 (Some 7010) None DeadLetter,
                        sampleMessage ''m2'' (- 1) 0 (Some 99999) None Pending] [1] [] [0] 0 1 True
             [] [AwaitBatch []])
   = Some (sampleQueue [sampleMessage ''m1'' 0 0 (Some 7010) None Pending,
                        sampleMessage ''m2'' (- 1) 0 (Some 99999) None Pending] [1, 0] [] [] 0 1 True
             [] [AwaitBatch []])"
  by (simp add: sample_defs queue_defs)

lemma t1: "step (Enqueue ''m1'' 0 (sampleEvent ''e1'' TicketCreated) 1 None)
             (sampleQueue [] [] [] [] 0 0 False [] [])
   = Some (sampleQueue [sampleMessage ''m1'' 1 0 None None Processing] [0] [''m1''] [] 0 0 True
             [0] [AwaitBatch [0]])"
  by (simp add: sample_defs queue_defs)

lemma t2: "step (Enqueue ''m2'' 0 (sampleEvent ''e1'' TicketCreated) 5 None)
             (sampleQueue [sampleMessage ''m1'' 1 0 None None Processing] [0] [''m1''] [] 0 0 True
               [0] [AwaitBatch [0]])
   = Some (sampleQueue [sampleMessage ''m1'' 1 0 None None Processing,
                        sampleMessage ''m2'' 5 0 None None Pending] [1, 0] [''m1''] [] 0 0 True
             [0] [AwaitBatch [0]])"
  by (simp add: sample_defs queue_defs)

lemma t3: "step (Enqueue ''m3'' 0 (sampleEvent ''e1'' TicketCreated) 1 None)
             (sampleQueue [sampleMessage ''m1'' 1 0 None None Processing,
                        sampleMessage ''m2'' 5 0 None None Pending] [1, 0] [''m1''] [] 0 0 True
             [0] [AwaitBatch [0]])
   = Some (sampleQueue [sampleMessage ''m1'' 1 0 None None Processing,
                        sampleMessage ''m2'' 5 0 None None Pending,
                        sampleMessage ''m3'' 1 0 None None Pending] [1, 0, 2] [''m1''] [] 0 0 True
             [0] [AwaitBatch [0]])"
  by (simp add: sample_defs queue_defs)

lemma t4: "step (Settle 0 (Inr ()) 10)
             (sampleQueue [sampleMessage ''m1'' 1 0 None None Processing,
                        sampleMessage ''m2'' 5 0 None None Pending,
                        sampleMessage ''m3'' 1 0 None None Pending] [1, 0, 2] [''m1''] [] 0 0 True
             [0] [AwaitBatch [0]])
   = Some (sampleQueue [sampleMessage ''m1'' 1 0 None (Some 10) Completed,
                        sampleMessage ''m2'' 5 0 None None Pending,
                        sampleMessage ''m3'' 1 0 None None Pending] [1, 2] [] [] 1 0 True
             [] [AwaitBatch []])"
  by (simp add: sample_defs queue_defs)

lemma t5: "step (Wake 0 10)
             (sampleQueue [sampleMessage ''m1'' 1 0 None (Some 10) Completed,
                        sampleMessage ''m2'' 5 0 None None Pending,
                        sampleMessage ''m3'' 1 0 None None Pending] [1, 2] [] [] 1 0 True
             [] [AwaitBatch []])
   = Some (sampleQueue [sampleMessage ''m1'' 1 0 None (Some 10) Completed,
                        sampleMessage ''m2'' 5 0 None None Processing,
                        sampleMessage ''m3'' 1 0 None None Processing] [1, 2] [''m2'', ''m3''] [] 1 0
             True [1, 2] [AwaitBatch [1, 2]])"
  by (simp add: sample_defs queue_defs)

lemma t4': "snd (enqueue ''m4'' 0 (sampleEvent ''e1'' TicketCreated) 3 None
             (sampleQueue [sampleMessage ''m1'' 1 0 None None Processing,
                        sampleMessage ''m2'' 5 0 None None Pending,
                        sampleMessage ''m3'' 1 0 None None Pending] [1, 0, 2] [''m1''] [] 0 0 True
             [0] [AwaitBatch [0]]))
   = sampleQueue [sampleMessage ''m1'' 1 0 None None Processing,
                        sampleMessage ''m2'' 5 0 None None Pending,
                        sampleMessage ''m3'' 1 0 None None Pending,
                        sampleMessage ''m4'' 3 0 None None Pending] [1, 3, 0, 2] [''m1''] [] 0 0 True
             [0] [AwaitBatch [0]]"
  by (simp add: sample_defs queue_defs)










lemma b2: "step Clear
             (sampleQueue [sampleMessage ''m1'' 0 0 None None Processing] [0] [''m1''] [] 0 0 True
               [0] [AwaitBatch [0]])
   = Some (sampleQueue [sampleMessage ''m1'' 0 0 None None Processing] [] [] [] 0 0 True
             [0] [AwaitBatch [0]])"
  by (simp add: sample_defs clear_def)





lemma i7: "step (Wake 0 8500)
             (sampleQueue [sampleMessage ''m1'' 0 3 (Some 7010) None DeadLetter] [] [] [0] 0 1 True
               [] [AwaitBatch []])
   = Some (sampleQueue [sampleMessage ''m1'' 0 3 (Some 7010) None DeadLetter] [] [] [0] 0 1
             False [] [Returned])"
  by (simp add: sample_defs queue_defs)

lemma i8: "step (RetryDeadLetter ''m1'' 9000)
             (sampleQueue [sampleMessage ''m1'' 0 3 (Some 7010) None DeadLetter] [] [] [0] 0 1
               False [] [Returned])
   = Some (sampleQueue [sampleMessage ''m1'' 0 0 (Some 7010) None Processing] [0] [''m1''] [] 0 1
             True [0] [Returned, AwaitBatch [0]])"
  by (simp add: sample_defs queue_defs)

lemma run_Cons_step: "step a q = Some q1 \<Longrightarrow> run as q1 = Some q2 \<Longrightarrow> run (a # as) q = Some q2"
  by simp

lemma run_Nil: "run [] q = Some q"
  by simp

lemma run_append:
  "run (xs @ ys) q = (case run xs q of None \<Rightarrow> None | Some q1 \<Rightarrow> run ys q1)"
  by (induction xs arbitrary: q) (auto split: option.splits)

lemma run_appendI:
  "run xs q = Some q1 \<Longrightarrow> run ys q1 = Some q2 \<Longrightarrow> run (xs @ ys) q = Some q2"
  by (simp add: run_append)

lemma run_twoFailures: "run twoFailures (newEventQueue None) = Some thirdAttempt"
  unfolding twoFailures_def thirdAttempt_def new_sample
  by (intro run_Cons_step[OF s1] run_Cons_step[OF s2] run_Cons_step[OF s3] run_Cons_step[OF s4]
        run_Cons_step[OF s5] run_Nil)


lemma step_dead: "step (Settle 0 (Inl Thrown) 8010) thirdAttempt = Some deadLettered"
  unfolding thirdAttempt_def deadLettered_def by (rule s6)

lemma step_back: "step (RetryDeadLetter ''m1'' 9000) deadLettered = Some broughtBack"
  unfolding broughtBack_def deadLettered_def by (rule s7)

lemma run_thirdFails:
  "run (twoFailures @ [Settle 0 (Inl Thrown) 8010]) (newEventQueue None) = Some deadLettered"
  by (intro run_appendI[OF run_twoFailures] run_Cons_step[OF step_dead] run_Nil)


lemma run_secondLife: "run secondLife (newEventQueue None) = Some atRest"
  unfolding secondLife_def
  apply (rule run_appendI[OF run_twoFailures])
  unfolding thirdAttempt_def atRest_def
  by (intro run_Cons_step[OF s6] run_Cons_step[OF s7] run_Cons_step[OF s8] run_Cons_step[OF s9]
        run_Cons_step[OF s10] run_Nil)

lemma run_lateRevival: "run lateRevival (newEventQueue None) = Some outOfOrder"
  unfolding lateRevival_def
  apply (rule run_appendI[OF run_twoFailures])
  unfolding thirdAttempt_def outOfOrder_def
  by (intro run_Cons_step[OF s6] run_Cons_step[OF u7] run_Cons_step[OF u8] run_Nil)

lemma run_oneFiveOne: "run oneFiveOne (newEventQueue None) = Some threeQueued"
  unfolding oneFiveOne_def threeQueued_def new_sample
  by (intro run_Cons_step[OF t1] run_Cons_step[OF t2] run_Cons_step[OF t3] run_Nil)

lemma run_nextBatch:
  "run (oneFiveOne @ [Settle 0 (Inr ()) 10, Wake 0 10]) (newEventQueue None) = Some nextBatch"
  apply (rule run_appendI[OF run_oneFiveOne])
  unfolding threeQueued_def nextBatch_def
  by (intro run_Cons_step[OF t4] run_Cons_step[OF t5] run_Nil)


lemma enqueue_fourth:
  "snd (enqueue ''m4'' 0 (sampleEvent ''e1'' TicketCreated) 3 None threeQueued) = withFourth"
  unfolding threeQueued_def withFourth_def by (rule t4')

lemma revives_dead: "revives (RetryDeadLetter ''m1'' 9000) deadLettered"
  by (simp add: deadLettered_def sample_defs queue_defs)

lemma retried_Cons:
  "step a q = Some q1 \<Longrightarrow> retried (a # as) q = (if revives a q then 1 else 0) + retried as q1"
  by simp

lemma retried_secondLife: "retried secondLife (newEventQueue None) = 1"
  unfolding secondLife_def twoFailures_def new_sample append.simps
  apply (simp only: retried_Cons[OF s1] retried_Cons[OF s2] retried_Cons[OF s3]
      retried_Cons[OF s4] retried_Cons[OF s5] retried_Cons[OF s6] retried_Cons[OF s7]
      retried_Cons[OF s8] retried_Cons[OF s9] retried_Cons[OF s10] retried.simps(1))
  using revives_dead unfolding deadLettered_def by simp

lemmas sample_states = firstAttempt_def backedOff_def thirdAttempt_def deadLettered_def
  broughtBack_def atRest_def luckyEnd_def outOfOrder_def threeQueued_def nextBatch_def
  withFourth_def revivedAndDone_def droppedByClear_def slowAttempt_def loopLost_def
  idleWithDead_def revivedOnIdle_def firstSettled_def shortMessage_def shortQueue_def
  slowQueue_def sampleQueue_def sampleMessage_def defaultOptions_def message_def





lemma run_idle:
  "run (twoFailures @ [Settle 0 (Inl Thrown) 8010, Wake 0 8500]) (newEventQueue None)
     = Some idleWithDead"
  apply (rule run_appendI[OF run_twoFailures])
  unfolding thirdAttempt_def idleWithDead_def
  by (intro run_Cons_step[OF s6] run_Cons_step[OF i7] run_Nil)

lemma step_idle: "step (RetryDeadLetter ''m1'' 9000) idleWithDead = Some revivedOnIdle"
  unfolding idleWithDead_def revivedOnIdle_def by (rule i8)

lemma run_firstSettled:
  "run (oneFiveOne @ [Settle 0 (Inr ()) 10]) (newEventQueue None) = Some firstSettled"
  apply (rule run_appendI[OF run_oneFiveOne])
  unfolding threeQueued_def firstSettled_def
  by (intro run_Cons_step[OF t4] run_Nil)

lemma step_nextBatch: "step (Wake 0 10) firstSettled = Some nextBatch"
  unfolding firstSettled_def nextBatch_def by (rule t5)

lemmas sample_runs = twoFailures_def secondLife_def thirdTimeLucky_def lateRevival_def
  oneFiveOne_def revivedBetween_def clearedInFlight_def

theorem dead_letter_when_retries_exhausted_witness:
  "run twoFailures (newEventQueue None) = Some thirdAttempt
   \<and> 0 \<in> set (inFlight thirdAttempt)
   \<and> retryCount (message thirdAttempt 0) = 2 \<and> maxRetries (message thirdAttempt 0) = 3
   \<and> step (Settle 0 (Inl Thrown) 8010) thirdAttempt = Some deadLettered
   \<and> status (message deadLettered 0) = DeadLetter
   \<and> retryCount (message deadLettered 0) = 3
   \<and> deadLetter deadLettered = [0] \<and> queue deadLettered = [] \<and> inFlight deadLettered = []
   \<and> failedCount deadLettered = failedCount thirdAttempt + 1
   \<and> completedCount deadLettered = completedCount thirdAttempt"
proof -
  have "0 \<in> set (inFlight thirdAttempt)"
    "maxRetries (message thirdAttempt 0) \<le> retryCount (message thirdAttempt 0) + 1"
    by (simp_all add: sample_states)
  from dead_letter_when_retries_exhausted[OF run_twoFailures this, of Thrown 8010]
  have "status (message deadLettered 0) = DeadLetter
      \<and> retryCount (message deadLettered 0) = retryCount (message thirdAttempt 0) + 1
      \<and> deadLetter deadLettered = deadLetter thirdAttempt @ [0]
      \<and> 0 \<notin> set (queue deadLettered) \<and> 0 \<notin> set (inFlight deadLettered)
      \<and> failedCount deadLettered = failedCount thirdAttempt + 1
      \<and> completedCount deadLettered = completedCount thirdAttempt"
    unfolding step_dead by simp
  then show ?thesis
    using run_twoFailures step_dead by (simp add: sample_states)
qed



theorem retryCount_bounded_reset_by_retryDeadLetter_witness:
  "run (twoFailures @ [Settle 0 (Inl Thrown) 8010]) (newEventQueue None) = Some deadLettered
   \<and> step (RetryDeadLetter ''m1'' 9000) deadLettered = Some broughtBack
   \<and> deadLetter deadLettered = [0] \<and> isProcessing deadLettered
   \<and> retryCount (message deadLettered 0) = 3 \<and> maxRetries (message deadLettered 0) = 3
   \<and> 0 \<in> set (queue broughtBack) \<and> deadLetter broughtBack = []
   \<and> retryCount (message broughtBack 0) = 0 \<and> maxRetries (message broughtBack 0) = 3
   \<and> status (message broughtBack 0) = Pending
   \<and> run (twoFailures @ [Settle 0 (Inl Thrown) 8010, Wake 0 8500]) (newEventQueue None)
        = Some idleWithDead
   \<and> step (RetryDeadLetter ''m1'' 9000) idleWithDead = Some revivedOnIdle
   \<and> isProcessing idleWithDead = False
   \<and> retryCount (message revivedOnIdle 0) = 0
   \<and> inFlight revivedOnIdle = [0]
   \<and> status (message revivedOnIdle 0) = Processing"
proof -
  have f: "findIndex (\<lambda>a. msg_id (message deadLettered a) = ''m1'') (deadLetter deadLettered)
             = Some 0"
    "deadLetter deadLettered = [0]" "length (heap deadLettered) = 1"
    "maxRetries (message deadLettered 0) = 3" "isProcessing deadLettered"
    "inFlight broughtBack = []"
    by (simp_all add: sample_states)
  from retryCount_bounded_reset_by_retryDeadLetter[OF run_thirdFails step_back] f
  have "maxRetries (message broughtBack 0) = maxRetries (message deadLettered 0)
      \<and> 0 \<in> set (queue broughtBack)
      \<and> deadLetter broughtBack = []
      \<and> retryCount (message deadLettered 0) = maxRetries (message deadLettered 0)
      \<and> retryCount (message broughtBack 0) = 0
      \<and> status (message broughtBack 0) = Pending"
    by (simp add: Let_def)
  moreover
  have g: "findIndex (\<lambda>a. msg_id (message idleWithDead a) = ''m1'') (deadLetter idleWithDead)
             = Some 0"
    "deadLetter idleWithDead = [0]" "length (heap idleWithDead) = 1"
    "isProcessing idleWithDead = False" "inFlight revivedOnIdle = [0]"
    by (simp_all add: sample_states)
  from retryCount_bounded_reset_by_retryDeadLetter[OF run_idle step_idle] g
  have "retryCount (message revivedOnIdle 0) = 0
      \<and> status (message revivedOnIdle 0) = Processing"
    by (simp add: Let_def)
  ultimately show ?thesis
    using run_thirdFails step_back f run_idle step_idle g by simp
qed

text \<open>
  A message fails three times and is dead-lettered with \<open>retryCount = 3\<close>; \<^verbatim>\<open>retryDeadLetter\<close>
  leaves it with \<open>retryCount = 0\<close>, lower than it was. Called on an idle queue,
  \<^verbatim>\<open>retryDeadLetter\<close> starts the loop, and the message is \<^verbatim>\<open>processing\<close>, not \<^verbatim>\<open>pending\<close>, when the
  call returns.
\<close>

theorem retryDeadLetter_lowers_retryCount:
  "run (twoFailures @ [Settle 0 (Inl Thrown) 8010]) (newEventQueue None) = Some deadLettered
   \<and> step (RetryDeadLetter ''m1'' 9000) deadLettered = Some broughtBack
   \<and> retryCount (message deadLettered 0) = 3
   \<and> retryCount (message broughtBack 0) = 0
   \<and> retryCount (message broughtBack 0) < retryCount (message deadLettered 0)
   \<and> run (twoFailures @ [Settle 0 (Inl Thrown) 8010, Wake 0 8500]) (newEventQueue None)
        = Some idleWithDead
   \<and> step (RetryDeadLetter ''m1'' 9000) idleWithDead = Some revivedOnIdle
   \<and> status (message revivedOnIdle 0) = Processing"
  using run_thirdFails step_back run_idle step_idle by (simp add: sample_states)

theorem conservation_counts_revivals_witness:
  "run secondLife (newEventQueue None) = Some atRest
   \<and> list_all (\<lambda>act. act \<noteq> Clear) secondLife
   \<and> length (filter isEnqueue secondLife) = 1
   \<and> retried secondLife (newEventQueue None) = 1
   \<and> st_pending (getStats atRest) + st_processing (getStats atRest)
       + st_completed (getStats atRest) + st_failed (getStats atRest) = 2"
proof -
  have c: "\<not> list_ex isClear secondLife" "length (filter isEnqueue secondLife) = 1"
    "list_all (\<lambda>act. act \<noteq> Clear) secondLife"
    by (simp_all add: sample_runs)
  from conservation_counts_revivals[OF run_secondLife c(1)] c(2) retried_secondLife
  have "st_pending (getStats atRest) + st_processing (getStats atRest)
       + st_completed (getStats atRest) + st_failed (getStats atRest) = 2"
    by simp
  then show ?thesis using run_secondLife c retried_secondLife by simp
qed

text \<open>
  One message enqueued, dead-lettered, revived and completed: nothing is in flight, pending
  or waiting, \<^verbatim>\<open>clear\<close> was never called, and the sum is 2 for 1 message enqueued. A message
  handed to \<^verbatim>\<open>schedule\<close> with a date out of range is not enqueued at all: the call throws.
\<close>

theorem conservation_fails_after_retryDeadLetter:
  "run secondLife (newEventQueue None) = Some atRest
   \<and> list_all (\<lambda>act. act \<noteq> Clear) secondLife
   \<and> queue atRest = [] \<and> inFlight atRest = [] \<and> processing atRest = []
   \<and> loops atRest = [Returned]
   \<and> length (filter isEnqueue secondLife) = 1
   \<and> st_pending (getStats atRest) = 0 \<and> st_processing (getStats atRest) = 0
   \<and> st_completed (getStats atRest) = 1 \<and> st_failed (getStats atRest) = 1
   \<and> schedule ''m2'' 9500 (sampleEvent ''e1'' TicketCreated) 8640000000000000 0 atRest
       = Inl (Error ''Invalid time value'')"
  using run_secondLife
  by (simp add: sample_runs sample_states getStats_def schedule_def toISOString_def maxDate_def)

theorem pending_list_priority_order_witness:
  "run oneFiveOne (newEventQueue None) = Some threeQueued
   \<and> list_all (\<lambda>act. \<exists>gen now ev prio sched. act = Enqueue gen now ev prio sched) oneFiveOne
   \<and> queue threeQueued = [1, 0, 2]
   \<and> map (\<lambda>a. priority (message threeQueued a)) (queue threeQueued) = [5, 1, 1]
   \<and> sorted_wrt (before threeQueued) (queue threeQueued)
   \<and> queue (snd (enqueue ''m4'' 0 (sampleEvent ''e1'' TicketCreated) 3 None threeQueued))
       = [1, 3, 0, 2]
   \<and> priority (message withFourth 3) = 3
   \<and> inFlight withFourth = inFlight threeQueued
   \<and> run (oneFiveOne @ [Settle 0 (Inr ()) 10]) (newEventQueue None) = Some firstSettled
   \<and> step (Wake 0 10) firstSettled = Some nextBatch
   \<and> inFlight firstSettled = []
   \<and> inFlight nextBatch = [1, 2]
   \<and> map (\<lambda>a. priority (message nextBatch a)) (inFlight nextBatch) = [5, 1]
   \<and> status (message nextBatch 1) = Processing \<and> status (message nextBatch 2) = Processing"
proof -
  have c: "\<not> list_ex isRetryDeadLetter oneFiveOne"
    "list_all (\<lambda>act. \<exists>gen now ev prio sched. act = Enqueue gen now ev prio sched) oneFiveOne"
    by (simp_all add: sample_runs)
  have g: "''m4'' \<notin> msg_id ` set (heap threeQueued)" "length (heap threeQueued) = 3"
    "queue threeQueued = [1, 0, 2]"
    "map (\<lambda>a. priority (message threeQueued a)) (queue threeQueued) = [5, 1, 1]"
    "isProcessing threeQueued"
    by (simp_all add: sample_states)
  have t: "takeWhile (\<lambda>b. \<not> priority (message threeQueued b) < 3) (queue threeQueued) = [1]"
    "dropWhile (\<lambda>b. \<not> priority (message threeQueued b) < 3) (queue threeQueued) = [0, 2]"
    by (simp_all add: sample_states)
  from pending_list_priority_order[OF run_oneFiveOne,
      of "''m4''" 0 "sampleEvent ''e1'' TicketCreated" 3 None] c(1) g(1,2,5)
  have x: "sorted_wrt (before threeQueued) (queue threeQueued)
      \<and> queue withFourth = [1] @ [3] @ [0, 2] \<and> priority (message withFourth 3) = 3
      \<and> inFlight withFourth = inFlight threeQueued"
    unfolding enqueue_fourth Let_def t by simp
  have h: "isProcessing firstSettled" "inFlight firstSettled = []"
    "take (maxConcurrent (options firstSettled) - length (processing firstSettled))
       (filter (isReady firstSettled 10) (queue firstSettled)) = [1, 2]"
    "map (\<lambda>a. priority (message nextBatch a)) [1, 2] = [5, 1]"
    by (simp_all add: sample_states isReady_def)
  from pending_list_priority_order[OF run_firstSettled, where i = 0 and now = 10]
    step_nextBatch h(1)
  have y: "inFlight nextBatch = inFlight firstSettled @ [1, 2]
      \<and> (\<forall>b \<in> set [1, 2]. status (message nextBatch b) = Processing)"
    unfolding Let_def h(3) by simp
  then have y': "inFlight nextBatch = [1, 2]" "status (message nextBatch 1) = Processing"
    "status (message nextBatch 2) = Processing"
    using h(2) by simp_all
  show ?thesis
    using run_oneFiveOne c(2) g(3,4) enqueue_fourth x run_firstSettled step_nextBatch h(2,4) y'
    by simp
qed

text \<open>
  Priorities 1, 5, 1 enqueued in that order on a fresh queue: the first \<^verbatim>\<open>enqueue\<close> finds the
  queue idle, starts the loop, and the loop dispatches the only message there is, of priority
  1, before the message of priority 5 exists. When that attempt has settled, the loop
  dispatches the other two together. So the dispatch order is the first 1, then 5, then the
  second 1.
\<close>

theorem first_enqueued_is_dispatched_first:
  "run oneFiveOne (newEventQueue None) = Some threeQueued
   \<and> inFlight threeQueued = [0]
   \<and> priority (message threeQueued 0) = 1 \<and> status (message threeQueued 0) = Processing
   \<and> priority (message threeQueued 1) = 5 \<and> status (message threeQueued 1) = Pending
   \<and> priority (message threeQueued 2) = 1 \<and> status (message threeQueued 2) = Pending
   \<and> run (oneFiveOne @ [Settle 0 (Inr ()) 10, Wake 0 10]) (newEventQueue None) = Some nextBatch
   \<and> status (message nextBatch 0) = Completed
   \<and> inFlight nextBatch = [1, 2]"
  using run_oneFiveOne run_nextBatch by (simp add: sample_states)

text \<open>
  A message revived by \<^verbatim>\<open>retryDeadLetter\<close> goes to the end of the pending list, here behind a
  message of lower priority.
\<close>

lemma retryDeadLetter_appends_out_of_order:
  "run lateRevival (newEventQueue None) = Some outOfOrder
   \<and> queue outOfOrder = [1, 0]
   \<and> map (\<lambda>a. priority (message outOfOrder a)) (queue outOfOrder) = [- 1, 0]
   \<and> \<not> sorted_wrt (before outOfOrder) (queue outOfOrder)"
  using run_lateRevival by (simp add: sample_states before_def)

end
